theory Spec2Isabelle
  imports Main "HOL-Library.Word"
begin

unbundle bit_operations_syntax

section \<open>Error codes and streams\<close>

text \<open>
  The error kinds of the library. A function that fails sets the calling thread's error
  code and returns a falsy value; the model returns the code in the left summand of a sum
  (or as \<open>Some code\<close> where the C function returns a success flag).
\<close>

datatype PHYSFS_ErrorCode =
    PHYSFS_ERR_OK | PHYSFS_ERR_OTHER_ERROR | PHYSFS_ERR_OUT_OF_MEMORY
  | PHYSFS_ERR_NOT_INITIALIZED | PHYSFS_ERR_IS_INITIALIZED | PHYSFS_ERR_ARGV0_IS_NULL
  | PHYSFS_ERR_UNSUPPORTED | PHYSFS_ERR_PAST_EOF | PHYSFS_ERR_FILES_STILL_OPEN
  | PHYSFS_ERR_INVALID_ARGUMENT | PHYSFS_ERR_NOT_MOUNTED | PHYSFS_ERR_NOT_FOUND
  | PHYSFS_ERR_SYMLINK_FORBIDDEN | PHYSFS_ERR_NO_WRITE_DIR | PHYSFS_ERR_OPEN_FOR_READING
  | PHYSFS_ERR_OPEN_FOR_WRITING | PHYSFS_ERR_NOT_A_FILE | PHYSFS_ERR_READ_ONLY
  | PHYSFS_ERR_CORRUPT | PHYSFS_ERR_SYMLINK_LOOP | PHYSFS_ERR_IO | PHYSFS_ERR_PERMISSION
  | PHYSFS_ERR_NO_SPACE | PHYSFS_ERR_BAD_FILENAME | PHYSFS_ERR_BUSY
  | PHYSFS_ERR_DIR_NOT_EMPTY | PHYSFS_ERR_OS_ERROR | PHYSFS_ERR_DUPLICATE
  | PHYSFS_ERR_BAD_PASSWORD | PHYSFS_ERR_APP_CALLBACK

text \<open>
  A \<open>PHYSFS_Io\<close> is a record of operations over a backing object \<open>opaque\<close>. Bytes are
  \<open>char\<close>s (8 bits). The C operations mutate the backing object; here each returns the
  new one.
  \<^item> \<open>io_read s n\<close> gives the bytes stored into the caller's buffer, so the C return value
    is their number; \<open>Inl e\<close> is a negative return with error code \<open>e\<close>.
  \<^item> \<open>io_write s bs\<close> gives the C return value (bytes written, or negative).
  \<^item> \<open>io_seek s off\<close> gives \<open>None\<close> for a non-zero (success) return and \<open>Some e\<close> for
    a zero return with error code \<open>e\<close>.
  \<^item> \<open>io_tell\<close> and \<open>io_length\<close> give the signed 64-bit result (\<open>-1\<close> on failure).
\<close>

record 's PHYSFS_Io =
  opaque :: 's
  io_read :: "'s \<Rightarrow> nat \<Rightarrow> (PHYSFS_ErrorCode + string) \<times> 's"
  io_write :: "'s \<Rightarrow> string \<Rightarrow> int \<times> 's"
  io_seek :: "'s \<Rightarrow> 64 word \<Rightarrow> PHYSFS_ErrorCode option \<times> 's"
  io_tell :: "'s \<Rightarrow> int"
  io_length :: "'s \<Rightarrow> int"
  io_duplicate :: "'s \<Rightarrow> 's"

definition call_read :: "'s PHYSFS_Io \<Rightarrow> nat \<Rightarrow> (PHYSFS_ErrorCode + string) \<times> 's PHYSFS_Io" where
  "call_read io n = (case io_read io (opaque io) n of (r, s') \<Rightarrow> (r, io\<lparr>opaque := s'\<rparr>))"

definition call_write :: "'s PHYSFS_Io \<Rightarrow> string \<Rightarrow> int \<times> 's PHYSFS_Io" where
  "call_write io bs = (case io_write io (opaque io) bs of (rc, s') \<Rightarrow> (rc, io\<lparr>opaque := s'\<rparr>))"

definition call_seek :: "'s PHYSFS_Io \<Rightarrow> 64 word \<Rightarrow> PHYSFS_ErrorCode option \<times> 's PHYSFS_Io" where
  "call_seek io off = (case io_seek io (opaque io) off of (r, s') \<Rightarrow> (r, io\<lparr>opaque := s'\<rparr>))"

definition call_tell :: "'s PHYSFS_Io \<Rightarrow> int" where
  "call_tell io = io_tell io (opaque io)"

definition call_length :: "'s PHYSFS_Io \<Rightarrow> int" where
  "call_length io = io_length io (opaque io)"

definition call_duplicate :: "'s PHYSFS_Io \<Rightarrow> 's PHYSFS_Io" where
  "call_duplicate io = io\<lparr>opaque := io_duplicate io (opaque io)\<rparr>"

text \<open>The C return value of a read: the number of bytes stored, or \<open>-1\<close>.\<close>

definition read_rc :: "PHYSFS_ErrorCode + string \<Rightarrow> int" where
  "read_rc r = (case r of Inl e \<Rightarrow> - 1 | Inr bs \<Rightarrow> int (length bs))"

subsection \<open>Memory streams (physfs.cpp, \<open>memoryIo_*\<close>)\<close>

text \<open>
  \<open>MemoryIoInfo\<close> without its lifetime fields (parent, refcount, destructor): the shared
  buffer, its length and the cursor. \<open>avail\<close> is an unsigned 64-bit difference.
\<close>

record MemoryIoInfo =
  buf :: string
  len :: nat
  pos :: nat

definition memoryIo_read :: "MemoryIoInfo \<Rightarrow> nat \<Rightarrow> (PHYSFS_ErrorCode + string) \<times> MemoryIoInfo" where
  "memoryIo_read info n =
     (let avail = (if pos info \<le> len info then len info - pos info
                   else 2 ^ 64 + len info - pos info)
      in if avail = 0 then (Inr [], info)
         else let n' = (if n > avail then avail else n)
              in (Inr (take n' (drop (pos info) (buf info))), info\<lparr>pos := pos info + n'\<rparr>))"

definition memoryIo_write :: "MemoryIoInfo \<Rightarrow> string \<Rightarrow> int \<times> MemoryIoInfo" where
  "memoryIo_write info bs = (- 1, info)"

definition memoryIo_seek :: "MemoryIoInfo \<Rightarrow> 64 word \<Rightarrow> PHYSFS_ErrorCode option \<times> MemoryIoInfo" where
  "memoryIo_seek info offset =
     (if unat offset > len info then (Some PHYSFS_ERR_PAST_EOF, info)
      else (None, info\<lparr>pos := unat offset\<rparr>))"

definition memoryIo_tell :: "MemoryIoInfo \<Rightarrow> int" where
  "memoryIo_tell info = int (pos info)"

definition memoryIo_length :: "MemoryIoInfo \<Rightarrow> int" where
  "memoryIo_length info = int (len info)"

definition memoryIo_duplicate :: "MemoryIoInfo \<Rightarrow> MemoryIoInfo" where
  "memoryIo_duplicate info = \<lparr>buf = buf info, len = len info, pos = 0\<rparr>"

definition PHYSFS_createMemoryIo :: "string \<Rightarrow> MemoryIoInfo PHYSFS_Io" where
  "PHYSFS_createMemoryIo bs =
     \<lparr>opaque = \<lparr>buf = bs, len = length bs, pos = 0\<rparr>,
      io_read = memoryIo_read, io_write = memoryIo_write, io_seek = memoryIo_seek,
      io_tell = memoryIo_tell, io_length = memoryIo_length,
      io_duplicate = memoryIo_duplicate\<rparr>"

section \<open>File handles (physfs.cpp)\<close>

text \<open>
  \<open>FileHandle\<close>: the stream, the direction, the address of the \<open>DirHandle\<close> that created
  it, and the optional buffer with its three sizes. The sizes are \<open>size_t\<close> values of
  an allocated buffer and are modelled as naturals; the one unsigned subtraction whose
  wrap-around the code relies on an invariant to avoid is written out.
\<close>

record 's FileHandle =
  io :: "'s PHYSFS_Io"
  forReading :: bool
  dirHandle :: nat
  buffer :: "string option"
  bufsize :: nat
  buffill :: nat
  bufpos :: nat

text \<open>The bytes of the buffer; a handle without a buffer has none.\<close>

definition buffer_bytes :: "'s FileHandle \<Rightarrow> string" where
  "buffer_bytes fh = (case buffer fh of None \<Rightarrow> [] | Some b \<Rightarrow> b)"

definition PHYSFS_eof :: "'s FileHandle \<Rightarrow> bool" where
  "PHYSFS_eof fh =
     (if \<not> forReading fh then False
      else if bufpos fh = buffill fh then
        (let p = call_tell (io fh); l = call_length (io fh)
         in if p < 0 \<or> l < 0 then False else p \<ge> l)
      else False)"

text \<open>\<open>PHYSFS_flush\<close> returns the success flag and the handle.\<close>

definition PHYSFS_flush :: "'s FileHandle \<Rightarrow> bool \<times> 's FileHandle" where
  "PHYSFS_flush fh =
     (if forReading fh \<or> bufpos fh = buffill fh then (True, fh)
      else case call_write (io fh)
                  (take (buffill fh - bufpos fh) (drop (bufpos fh) (buffer_bytes fh))) of
             (rc, io') \<Rightarrow>
               if rc \<le> 0 then (False, fh\<lparr>io := io'\<rparr>)
               else (True, fh\<lparr>io := io', bufpos := 0, buffill := 0\<rparr>))"

text \<open>
  \<open>doBufferedWrite\<close> is called with a buffer set; \<open>memcpy\<close> to \<open>buffer + buffill\<close>
  overwrites \<open>length bs\<close> bytes there.
\<close>

definition memcpy_at :: "string \<Rightarrow> nat \<Rightarrow> string \<Rightarrow> string" where
  "memcpy_at dst off bs = take off dst @ bs @ drop (off + length bs) dst"

definition doBufferedWrite :: "'s FileHandle \<Rightarrow> string \<Rightarrow> int \<times> 's FileHandle" where
  "doBufferedWrite fh bs =
     (if buffill fh + length bs < bufsize fh then
        (int (length bs),
         fh\<lparr>buffer := map_option (\<lambda>b. memcpy_at b (buffill fh) bs) (buffer fh),
            buffill := buffill fh + length bs\<rparr>)
      else case PHYSFS_flush fh of
             (ok, fh1) \<Rightarrow>
               if \<not> ok then (- 1, fh1)
               else case call_write (io fh1) bs of (rc, io') \<Rightarrow> (rc, fh1\<lparr>io := io'\<rparr>))"

text \<open>
  A write-only stream that accepts every byte and appends it to what it holds, standing
  for a native file opened for writing; used to run the write path on concrete inputs.
\<close>

definition sink_Io :: "string \<Rightarrow> string PHYSFS_Io" where
  "sink_Io written =
     \<lparr>opaque = written,
      io_read = (\<lambda>s n. (Inl PHYSFS_ERR_OPEN_FOR_WRITING, s)),
      io_write = (\<lambda>s bs. (int (length bs), s @ bs)),
      io_seek = (\<lambda>s off. (Some PHYSFS_ERR_PAST_EOF, s)),
      io_tell = (\<lambda>s. int (length s)),
      io_length = (\<lambda>s. int (length s)),
      io_duplicate = (\<lambda>s. s)\<rparr>"

section \<open>Byte-range streams of the unpacked-archive framework\<close>

text \<open>
  A directory-tree entry and its one subclass in the repository, \<open>UNPKentry\<close>. The
  links \<open>children\<close> and \<open>sibling\<close> hold the address of an entry or are null; the
  \<open>hashnext\<close> chain of a bucket is kept as the list of the addresses on it (see the
  directory tree below).
\<close>

record UNPKentry =
  name :: string
  children :: "nat option"
  sibling :: "nat option"
  isdir :: bool
  startPos :: "64 word"
  size_f :: "64 word"
  ctime :: int
  mtime :: int

text \<open>\<open>UNPKfileinfo\<close>: the parent stream, the entry read, and the 32-bit cursor.\<close>

record 's UNPKfileinfo =
  finfo_io :: "'s PHYSFS_Io"
  entry :: UNPKentry
  curPos :: "32 word"

definition UNPK_read :: "'s UNPKfileinfo \<Rightarrow> nat \<Rightarrow> (PHYSFS_ErrorCode + string) \<times> 's UNPKfileinfo" where
  "UNPK_read finfo n =
     (let bytesLeft = unat (size_f (entry finfo) - ucast (curPos finfo));
          n' = (if bytesLeft < n then bytesLeft else n)
      in case call_read (finfo_io finfo) n' of
           (r, io') \<Rightarrow>
             (r, finfo\<lparr>finfo_io := io',
                       curPos := (if read_rc r > 0 then curPos finfo + word_of_int (read_rc r)
                                  else curPos finfo)\<rparr>))"

definition UNPK_write :: "'s UNPKfileinfo \<Rightarrow> string \<Rightarrow> int \<times> 's UNPKfileinfo" where
  "UNPK_write finfo bs = (- 1, finfo)"

definition UNPK_tell :: "'s UNPKfileinfo \<Rightarrow> int" where
  "UNPK_tell finfo = uint (curPos finfo)"

definition UNPK_seek :: "'s UNPKfileinfo \<Rightarrow> 64 word \<Rightarrow> PHYSFS_ErrorCode option \<times> 's UNPKfileinfo" where
  "UNPK_seek finfo offset =
     (if offset \<ge> size_f (entry finfo) then (Some PHYSFS_ERR_PAST_EOF, finfo)
      else case call_seek (finfo_io finfo) (startPos (entry finfo) + offset) of
             (rc, io') \<Rightarrow>
               (rc, if rc = None then finfo\<lparr>finfo_io := io', curPos := ucast offset\<rparr>
                    else finfo\<lparr>finfo_io := io'\<rparr>))"

definition UNPK_length :: "'s UNPKfileinfo \<Rightarrow> int" where
  "UNPK_length finfo = sint (size_f (entry finfo))"

definition UNPK_duplicate :: "'s UNPKfileinfo \<Rightarrow> 's UNPKfileinfo" where
  "UNPK_duplicate origfinfo =
     \<lparr>finfo_io = call_duplicate (finfo_io origfinfo), entry = entry origfinfo, curPos = 0\<rparr>"

definition UNPK_Io :: "'s UNPKfileinfo \<Rightarrow> 's UNPKfileinfo PHYSFS_Io" where
  "UNPK_Io finfo =
     \<lparr>opaque = finfo, io_read = UNPK_read, io_write = UNPK_write, io_seek = UNPK_seek,
      io_tell = UNPK_tell, io_length = UNPK_length, io_duplicate = UNPK_duplicate\<rparr>"

section \<open>Path sanitation (physfs.cpp)\<close>

text \<open>
  \<open>sanitizePlatformIndependentPath\<close> walks the source with a \<open>do ... while (ch)\<close> loop.
  A string is the characters before the terminating NUL. The loop state is the rest of the
  source, the destination written so far, and the text from \<open>prev\<close> to \<open>dst\<close> (the segment
  being written). Reaching the end of the source is reading the NUL: it is stored and the
  loop ends.
\<close>

function sanitize_loop :: "string \<Rightarrow> string \<Rightarrow> string \<Rightarrow> PHYSFS_ErrorCode + string" where
  "sanitize_loop [] dst seg = Inr dst"
| "sanitize_loop (ch # src) dst seg =
     (if ch = CHR '':'' \<or> ch = CHR 0x5C then Inl PHYSFS_ERR_BAD_FILENAME
      else if ch = CHR ''/'' then
        (if seg = ''.'' \<or> seg = ''..'' then Inl PHYSFS_ERR_BAD_FILENAME
         else let src' = dropWhile (\<lambda>c. c = CHR ''/'') src
              in if src' = [] then Inr dst
                 else sanitize_loop src' (dst @ [ch]) [])
      else sanitize_loop src (dst @ [ch]) (seg @ [ch]))"
  by pat_completeness auto
termination
  by (relation "measure (\<lambda>(src, dst, seg). length src)")
     (auto simp: less_Suc_eq_le length_dropWhile_le)

definition sanitizePlatformIndependentPath :: "string \<Rightarrow> PHYSFS_ErrorCode + string" where
  "sanitizePlatformIndependentPath src =
     (let src1 = dropWhile (\<lambda>c. c = CHR ''/'') src
      in if src1 = ''.'' \<or> src1 = ''..'' then Inl PHYSFS_ERR_BAD_FILENAME
         else sanitize_loop src1 [] [])"

section \<open>The mount engine (physfs.cpp)\<close>

text \<open>
  \<open>DirHandle\<close>: a mounted archive. File handles point to the \<open>DirHandle\<close> that created
  them and \<open>freeDirHandle\<close> compares such pointers, so every \<open>DirHandle\<close> carries the
  address it was allocated at. The archive instance (\<open>opaque\<close> and \<open>funcs\<close>) is a value
  of an arbitrary type. The linked lists (\<open>next\<close>) are lists, head first.
\<close>

record 'a DirHandle =
  dh_addr :: nat
  dh_opaque :: 'a
  dirName :: string
  mountPoint :: "string option"
  root :: "string option"
  rootlen :: nat

record ('a, 's) PHYSFS_state =
  searchPath :: "'a DirHandle list"
  writeDir :: "'a DirHandle option"
  openReadList :: "'s FileHandle list"
  openWriteList :: "'s FileHandle list"
  next_addr :: nat

text \<open>
  \<open>freeDirHandle\<close> fails with \<open>FILES_STILL_OPEN\<close> when a handle of the given list points
  to the \<open>DirHandle\<close>; otherwise it closes the archive and frees the handle.
\<close>

definition freeDirHandle :: "'a DirHandle option \<Rightarrow> 's FileHandle list \<Rightarrow> PHYSFS_ErrorCode option" where
  "freeDirHandle dh openList =
     (case dh of None \<Rightarrow> None
      | Some d \<Rightarrow> if list_ex (\<lambda>i. dirHandle i = dh_addr d) openList
                  then Some PHYSFS_ERR_FILES_STILL_OPEN else None)"

text \<open>
  The loop of \<open>PHYSFS_unmount\<close> over the search path: the first \<open>DirHandle\<close> whose
  \<open>dirName\<close> equals \<open>oldDir\<close> is freed against the open-read list and unlinked.
\<close>

fun unmount_loop :: "'s FileHandle list \<Rightarrow> string \<Rightarrow> 'a DirHandle list \<Rightarrow> PHYSFS_ErrorCode + 'a DirHandle list" where
  "unmount_loop rl oldDir [] = Inl PHYSFS_ERR_NOT_MOUNTED"
| "unmount_loop rl oldDir (i # rest) =
     (if dirName i = oldDir then
        (case freeDirHandle (Some i) rl of
           Some e \<Rightarrow> Inl e
         | None \<Rightarrow> Inr rest)
      else case unmount_loop rl oldDir rest of
             Inl e \<Rightarrow> Inl e
           | Inr rest' \<Rightarrow> Inr (i # rest'))"

text \<open>
  A null \<open>oldDir\<close> is \<open>None\<close>. The result is the error code of a failed call
  (\<open>None\<close> when the call returns 1) and the state after the call.
\<close>

definition PHYSFS_unmount :: "('a, 's) PHYSFS_state \<Rightarrow> string option \<Rightarrow> PHYSFS_ErrorCode option \<times> ('a, 's) PHYSFS_state" where
  "PHYSFS_unmount st oldDir =
     (case oldDir of None \<Rightarrow> (Some PHYSFS_ERR_INVALID_ARGUMENT, st)
      | Some d \<Rightarrow>
          (case unmount_loop (openReadList st) d (searchPath st) of
             Inl e \<Rightarrow> (Some e, st)
           | Inr sp \<Rightarrow> (None, st\<lparr>searchPath := sp\<rparr>)))"

text \<open>
  \<open>createDirHandle\<close>: the mount point is sanitized first, then the archive is opened.
  \<open>openDirectory\<close> probes the platform and the registered archivers, which are outside
  the sources at hand, and is a parameter. Allocation is taken to succeed.
\<close>

definition createDirHandle ::
  "('i option \<Rightarrow> string \<Rightarrow> bool \<Rightarrow> PHYSFS_ErrorCode + 'a) \<Rightarrow> nat \<Rightarrow> 'i option \<Rightarrow> string
     \<Rightarrow> string option \<Rightarrow> bool \<Rightarrow> PHYSFS_ErrorCode + 'a DirHandle" where
  "createDirHandle openDirectory addr src_io newDir mntpnt forWriting =
     (case (case mntpnt of None \<Rightarrow> Inr None
            | Some mp \<Rightarrow> map_sum id Some (sanitizePlatformIndependentPath mp)) of
        Inl e \<Rightarrow> Inl e
      | Inr tmpmntpnt \<Rightarrow>
          (case openDirectory src_io newDir forWriting of
             Inl e \<Rightarrow> Inl e
           | Inr arc \<Rightarrow>
               Inr \<lparr>dh_addr = addr, dh_opaque = arc, dirName = newDir,
                    mountPoint = (case tmpmntpnt of None \<Rightarrow> None
                                  | Some m \<Rightarrow> if m \<noteq> [] then Some (m @ ''/'') else None),
                    root = None, rootlen = 0\<rparr>))"

text \<open>
  \<open>doMount\<close>: a null \<open>fname\<close> or \<open>mountPoint\<close> is \<open>None\<close>. The result is the error
  code of a failed call (\<open>None\<close> when the call returns 1) and the state after the call.
\<close>

definition doMount ::
  "('i option \<Rightarrow> string \<Rightarrow> bool \<Rightarrow> PHYSFS_ErrorCode + 'a) \<Rightarrow> ('a, 's) PHYSFS_state \<Rightarrow> 'i option
     \<Rightarrow> string option \<Rightarrow> string option \<Rightarrow> bool \<Rightarrow> PHYSFS_ErrorCode option \<times> ('a, 's) PHYSFS_state" where
  "doMount openDirectory st src_io fname mntpnt appendToPath =
     (case fname of None \<Rightarrow> (Some PHYSFS_ERR_INVALID_ARGUMENT, st)
      | Some f \<Rightarrow>
          let mp = (case mntpnt of None \<Rightarrow> ''/'' | Some m \<Rightarrow> m)
          in (if list_ex (\<lambda>i. f = dirName i) (searchPath st) then (None, st)
              else (case createDirHandle openDirectory (next_addr st) src_io f (Some mp) False of
                      Inl e \<Rightarrow> (Some e, st)
                    | Inr dh \<Rightarrow>
                        (None, st\<lparr>searchPath := (if appendToPath then searchPath st @ [dh]
                                                  else dh # searchPath st),
                                 next_addr := Suc (next_addr st)\<rparr>))))"

text \<open>
  A source can be mounted at a mount point when the mount point passes sanitation and
  \<open>openDirectory\<close> opens the source for reading: the two calls of \<open>createDirHandle\<close>
  that can fail.
\<close>

definition mountable ::
  "('i option \<Rightarrow> string \<Rightarrow> bool \<Rightarrow> PHYSFS_ErrorCode + 'a) \<Rightarrow> 'i option \<Rightarrow> string \<Rightarrow> string option \<Rightarrow> bool" where
  "mountable openDirectory src_io f mntpnt =
     (case sanitizePlatformIndependentPath (case mntpnt of None \<Rightarrow> ''/'' | Some m \<Rightarrow> m) of
        Inl e \<Rightarrow> False
      | Inr m \<Rightarrow> (case openDirectory src_io f False of Inl e \<Rightarrow> False | Inr arc \<Rightarrow> True))"

text \<open>Concrete states used to run the mount engine.\<close>

definition data_mount :: "unit DirHandle" where
  "data_mount = \<lparr>dh_addr = 1, dh_opaque = (), dirName = ''/data'', mountPoint = None,
                  root = None, rootlen = 0\<rparr>"

definition data_write_dir :: "unit DirHandle" where
  "data_write_dir = \<lparr>dh_addr = 2, dh_opaque = (), dirName = ''/data'', mountPoint = None,
                      root = None, rootlen = 0\<rparr>"

definition handle_on :: "nat \<Rightarrow> bool \<Rightarrow> string FileHandle" where
  "handle_on addr rd = \<lparr>io = sink_Io [], forReading = rd, dirHandle = addr, buffer = None,
                         bufsize = 0, buffill = 0, bufpos = 0\<rparr>"

definition write_handle_state :: "(unit, string) PHYSFS_state" where
  "write_handle_state =
     \<lparr>searchPath = [data_mount], writeDir = Some data_write_dir, openReadList = [],
      openWriteList = [handle_on 2 False], next_addr = 3\<rparr>"

definition aliased_write_state :: "(unit, string) PHYSFS_state" where
  "aliased_write_state =
     \<lparr>searchPath = [data_mount], writeDir = None, openReadList = [],
      openWriteList = [handle_on 1 False], next_addr = 2\<rparr>"

definition read_handle_state :: "(unit, string) PHYSFS_state" where
  "read_handle_state =
     \<lparr>searchPath = [data_mount], writeDir = None, openReadList = [handle_on 1 True],
      openWriteList = [], next_addr = 2\<rparr>"

definition empty_state :: "(unit, string) PHYSFS_state" where
  "empty_state = \<lparr>searchPath = [], writeDir = None, openReadList = [], openWriteList = [],
                   next_addr = 1\<rparr>"

definition open_any :: "unit option \<Rightarrow> string \<Rightarrow> bool \<Rightarrow> PHYSFS_ErrorCode + unit" where
  "open_any src_io d forWriting = Inr ()"

definition truncated_finfo :: "MemoryIoInfo UNPKfileinfo" where
  "truncated_finfo =
     \<lparr>finfo_io = PHYSFS_createMemoryIo (replicate 32 CHR ''a''),
      entry = \<lparr>name = ''X'', children = None, sibling = None, isdir = False,
                startPos = 32, size_f = 100, ctime = - 1, mtime = - 1\<rparr>,
      curPos = 0\<rparr>"

definition huge_finfo :: "MemoryIoInfo UNPKfileinfo" where
  "huge_finfo =
     \<lparr>finfo_io = PHYSFS_createMemoryIo (replicate 8589934592 CHR ''a''),
      entry = \<lparr>name = ''X'', children = None, sibling = None, isdir = False,
                startPos = 0, size_f = 4294967297, ctime = - 1, mtime = - 1\<rparr>,
      curPos = 0\<rparr>"

definition small_finfo :: "MemoryIoInfo UNPKfileinfo" where
  "small_finfo =
     \<lparr>finfo_io = PHYSFS_createMemoryIo ''0123456789'',
      entry = \<lparr>name = ''X'', children = None, sibling = None, isdir = False,
                startPos = 2, size_f = 5, ctime = - 1, mtime = - 1\<rparr>,
      curPos = 0\<rparr>"

definition full_write_handle :: "string FileHandle" where
  "full_write_handle =
     \<lparr>io = sink_Io [], forReading = False, dirHandle = 0, buffer = Some ''abc?????'',
      bufsize = 8, buffill = 3, bufpos = 0\<rparr>"

section \<open>The directory tree (physfs\_tree.cpp)\<close>

text \<open>
  The three string hashes of physfs.cpp; \<open>char\<close> is taken as signed, so a byte is
  sign-extended before the exclusive or. \<open>__PHYSFS_hashStringCaseFold\<close> and
  \<open>PHYSFS_utf8stricmp\<close> rest on the Unicode case-folding tables, which are not among the
  sources: they are the two fields of \<open>externals\<close>, passed to every tree operation.
\<close>

definition char_int :: "char \<Rightarrow> 32 word" where
  "char_int ch = scast (of_char ch :: 8 word)"

definition PHYSFS_hashString :: "string \<Rightarrow> 32 word" where
  "PHYSFS_hashString str = foldl (\<lambda>h ch. xor (push_bit 5 h + h) (char_int ch)) 5381 str"

definition PHYSFS_hashStringCaseFoldUSAscii :: "string \<Rightarrow> 32 word" where
  "PHYSFS_hashStringCaseFoldUSAscii str =
     foldl (\<lambda>h ch. xor (push_bit 5 h + h)
                      (char_int (if (65 :: nat) \<le> of_char ch \<and> of_char ch \<le> (90 :: nat)
                                 then char_of (of_char ch + (32 :: nat)) else ch)))
           5381 str"

record externals =
  hashStringCaseFold :: "string \<Rightarrow> 32 word"
  utf8stricmp :: "string \<Rightarrow> string \<Rightarrow> int"

text \<open>
  \<open>__PHYSFS_DirTree\<close>. Entries live at addresses: \<open>ents\<close> is the memory holding them and
  \<open>next_entry\<close> the next address the allocator hands out. \<open>hash\<close> gives, for each bucket,
  the addresses on its \<open>hashnext\<close> chain, head first. Entries are allocated with the
  footprint of the subclass and zero-filled; the record of an entry is \<open>UNPKentry\<close>.
\<close>

record DirTree =
  root_entry :: nat
  ents :: "nat \<Rightarrow> UNPKentry"
  next_entry :: nat
  hash :: "nat \<Rightarrow> nat list"
  hashBuckets :: nat
  case_sensitive :: bool
  only_usascii :: bool

definition zero_entry :: UNPKentry where
  "zero_entry = \<lparr>name = [], children = None, sibling = None, isdir = False,
                  startPos = 0, size_f = 0, ctime = 0, mtime = 0\<rparr>"

definition DirTreeInit :: "bool \<Rightarrow> bool \<Rightarrow> DirTree" where
  "DirTreeInit cs ua =
     \<lparr>root_entry = 0, ents = (\<lambda>a. zero_entry)(0 := zero_entry\<lparr>name := ''/'', isdir := True\<rparr>),
      next_entry = 1, hash = (\<lambda>b. []), hashBuckets = 64,
      case_sensitive = cs, only_usascii = ua\<rparr>"

definition hashPathName :: "externals \<Rightarrow> DirTree \<Rightarrow> string \<Rightarrow> nat" where
  "hashPathName ext dt nm =
     unat (if case_sensitive dt then PHYSFS_hashString nm
           else if only_usascii dt then PHYSFS_hashStringCaseFoldUSAscii nm
           else hashStringCaseFold ext nm) mod hashBuckets dt"

text \<open>The comparison of \<open>__PHYSFS_DirTreeFind\<close>: \<open>strcmp\<close> or \<open>PHYSFS_utf8stricmp\<close>.\<close>

definition name_cmp :: "externals \<Rightarrow> DirTree \<Rightarrow> nat \<Rightarrow> string \<Rightarrow> bool" where
  "name_cmp ext dt r path =
     (if case_sensitive dt then name (ents dt r) = path
      else utf8stricmp ext (name (ents dt r)) path = 0)"

text \<open>
  The scan of a bucket. \<open>prev\<close> holds the entries already passed (empty when \<open>prev\<close> is
  null); on a hit behind the head the entry is unlinked and put in front. The result is
  the entry and the new chain.
\<close>

fun find_chain :: "(nat \<Rightarrow> bool) \<Rightarrow> nat list \<Rightarrow> nat list \<Rightarrow> (nat \<times> nat list) option" where
  "find_chain m prev [] = None"
| "find_chain m prev (r # rest) =
     (if m r then Some (r, if prev \<noteq> [] then r # prev @ rest else r # rest)
      else find_chain m (prev @ [r]) rest)"

definition DirTreeFind :: "externals \<Rightarrow> DirTree \<Rightarrow> string \<Rightarrow> (PHYSFS_ErrorCode + nat) \<times> DirTree" where
  "DirTreeFind ext dt path =
     (if path = [] then (Inr (root_entry dt), dt)
      else let hashval = hashPathName ext dt path
           in (case find_chain (\<lambda>r. name_cmp ext dt r path) [] (hash dt hashval) of
                 None \<Rightarrow> (Inl PHYSFS_ERR_NOT_FOUND, dt)
               | Some (r, chain) \<Rightarrow> (Inr r, dt\<lparr>hash := (hash dt)(hashval := chain)\<rparr>)))"

text \<open>\<open>strrchr\<close>: the index of the last occurrence of a character.\<close>

definition strrchr :: "string \<Rightarrow> char \<Rightarrow> nat option" where
  "strrchr s c =
     (if c \<in> set s then Some (length s - Suc (length (takeWhile (\<lambda>x. x \<noteq> c) (rev s))))
      else None)"

lemma strrchr_less: "strrchr s c = Some k \<Longrightarrow> k < length s"
  by (auto simp: strrchr_def split: if_splits) (metis length_pos_if_in_set diff_Suc_less)

text \<open>
  The tail of \<open>__PHYSFS_DirTreeAdd\<close>: the new entry at address \<open>retval\<close> gets its name,
  is put at the head of its bucket and becomes the first child of \<open>parent\<close>.
\<close>

definition link_entry :: "DirTree \<Rightarrow> nat \<Rightarrow> nat \<Rightarrow> string \<Rightarrow> bool \<Rightarrow> nat \<Rightarrow> DirTree" where
  "link_entry dt retval hashval nm d parent =
     (let ents1 = (ents dt)(retval := zero_entry\<lparr>name := nm,
                      sibling := children (ents dt parent), isdir := d\<rparr>);
          ents2 = ents1(parent := (ents1 parent)\<lparr>children := Some retval\<rparr>)
      in dt\<lparr>ents := ents2, next_entry := Suc retval,
            hash := (hash dt)(hashval := retval # hash dt hashval)\<rparr>)"

text \<open>
  \<open>__PHYSFS_DirTreeAdd\<close> and \<open>addAncestors\<close> call each other; \<open>addAncestors\<close> cuts the
  name at its last \<open>/\<close>, so the name gets shorter.
\<close>

function (sequential) DirTreeAdd :: "externals \<Rightarrow> DirTree \<Rightarrow> string \<Rightarrow> bool \<Rightarrow> (PHYSFS_ErrorCode + nat) \<times> DirTree"
  and addAncestors :: "externals \<Rightarrow> DirTree \<Rightarrow> string \<Rightarrow> (PHYSFS_ErrorCode + nat) \<times> DirTree" where
  "DirTreeAdd ext dt nm d =
     (case DirTreeFind ext dt nm of
        (Inr r, dt1) \<Rightarrow> (Inr r, dt1)
      | (Inl nf, dt1) \<Rightarrow>
          (case addAncestors ext dt1 nm of
             (Inl e, dt2) \<Rightarrow> (Inl e, dt2)
           | (Inr parent, dt2) \<Rightarrow>
               (Inr (next_entry dt2),
                link_entry dt2 (next_entry dt2) (hashPathName ext dt2 nm) nm d parent)))"
| "addAncestors ext dt nm =
     (case strrchr nm CHR ''/'' of
        None \<Rightarrow> (Inr (root_entry dt), dt)
      | Some sep \<Rightarrow>
          (case DirTreeFind ext dt (take sep nm) of
             (Inr r, dt1) \<Rightarrow>
               if \<not> isdir (ents dt1 r) then (Inl PHYSFS_ERR_CORRUPT, dt1) else (Inr r, dt1)
           | (Inl nf, dt1) \<Rightarrow> DirTreeAdd ext dt1 (take sep nm) True))"
  by pat_completeness auto
termination
  by (relation "measure (\<lambda>x. case x of Inl (ext, dt, nm, d) \<Rightarrow> 2 * length nm + 1
                                | Inr (ext, dt, nm) \<Rightarrow> 2 * length nm)")
     (auto dest: strrchr_less)

text \<open>
  The field assignments of \<open>UNPK_addEntry\<close> on the entry returned by the tree.
\<close>

definition fill_entry :: "DirTree \<Rightarrow> nat \<Rightarrow> bool \<Rightarrow> int \<Rightarrow> int \<Rightarrow> 64 word \<Rightarrow> 64 word \<Rightarrow> DirTree" where
  "fill_entry dt a d ct mt p l =
     dt\<lparr>ents := (ents dt)(a := (ents dt a)\<lparr>startPos := (if d then 0 else p),
                                              size_f := (if d then 0 else l),
                                              ctime := ct, mtime := mt\<rparr>)\<rparr>"

text \<open>
  The operations that change a tree, and a tree after a sequence of them.
\<close>

datatype tree_op =
    OpAdd string bool
  | OpFind string
  | OpFill nat bool int int "64 word" "64 word"

fun apply_ops :: "externals \<Rightarrow> DirTree \<Rightarrow> tree_op list \<Rightarrow> DirTree" where
  "apply_ops ext dt [] = dt"
| "apply_ops ext dt (OpAdd nm d # ops) = apply_ops ext (snd (DirTreeAdd ext dt nm d)) ops"
| "apply_ops ext dt (OpFind p # ops) = apply_ops ext (snd (DirTreeFind ext dt p)) ops"
| "apply_ops ext dt (OpFill a d ct mt p l # ops) = apply_ops ext (fill_entry dt a d ct mt p l) ops"

text \<open>
  What the proofs need of \<open>PHYSFS_utf8stricmp\<close>: equality up to case is an equivalence,
  and a name is never equal up to case to the part of it before one of its \<open>/\<close>.
\<close>

definition stricmp_ok :: "externals \<Rightarrow> bool" where
  "stricmp_ok ext \<longleftrightarrow>
     (\<forall>a. utf8stricmp ext a a = 0)
   \<and> (\<forall>a b. utf8stricmp ext a b = 0 \<longrightarrow> utf8stricmp ext b a = 0)
   \<and> (\<forall>a b c. utf8stricmp ext a b = 0 \<longrightarrow> utf8stricmp ext b c = 0 \<longrightarrow> utf8stricmp ext a c = 0)
   \<and> (\<forall>a k. k < length a \<longrightarrow> a ! k = CHR ''/'' \<longrightarrow> utf8stricmp ext (take k a) a \<noteq> 0)"

definition same_name :: "externals \<Rightarrow> DirTree \<Rightarrow> string \<Rightarrow> string \<Rightarrow> bool" where
  "same_name ext dt a b = (if case_sensitive dt then a = b else utf8stricmp ext a b = 0)"

text \<open>
  The invariant of a tree: the root is allocated; a chain holds no entry twice; an entry
  on a chain is allocated, has a non-empty name and sits in the bucket of its name; no two
  entries of one chain have names that compare equal.
\<close>

definition tree_inv :: "externals \<Rightarrow> DirTree \<Rightarrow> bool" where
  "tree_inv ext dt \<longleftrightarrow>
     root_entry dt < next_entry dt
   \<and> (\<forall>b. distinct (hash dt b))
   \<and> (\<forall>b. \<forall>e\<in>set (hash dt b). e < next_entry dt \<and> name (ents dt e) \<noteq> []
                \<and> hashPathName ext dt (name (ents dt e)) = b)
   \<and> (\<forall>b. \<forall>e1\<in>set (hash dt b). \<forall>e2\<in>set (hash dt b).
          same_name ext dt (name (ents dt e1)) (name (ents dt e2)) \<longrightarrow> e1 = e2)"

definition same_entries :: "DirTree \<Rightarrow> DirTree \<Rightarrow> bool" where
  "same_entries dt dt' \<longleftrightarrow>
     case_sensitive dt' = case_sensitive dt \<and> only_usascii dt' = only_usascii dt
   \<and> hashBuckets dt' = hashBuckets dt \<and> root_entry dt' = root_entry dt
   \<and> next_entry dt' = next_entry dt \<and> ents dt' = ents dt
   \<and> (\<forall>b. set (hash dt' b) = set (hash dt b))"

definition lookup :: "externals \<Rightarrow> DirTree \<Rightarrow> string \<Rightarrow> PHYSFS_ErrorCode + nat" where
  "lookup ext dt q =
     (if q = [] then Inr (root_entry dt)
      else case List.find (\<lambda>r. same_name ext dt (name (ents dt r)) q) (hash dt (hashPathName ext dt q)) of
             None \<Rightarrow> Inl PHYSFS_ERR_NOT_FOUND | Some r \<Rightarrow> Inr r)"

definition prefixes :: "string \<Rightarrow> string set" where
  "prefixes nm = {take k nm | k. k < length nm \<and> nm ! k = CHR ''/''}"

definition grows :: "string set \<Rightarrow> DirTree \<Rightarrow> DirTree \<Rightarrow> bool" where
  "grows S dt dt' \<longleftrightarrow>
     case_sensitive dt' = case_sensitive dt \<and> only_usascii dt' = only_usascii dt
   \<and> hashBuckets dt' = hashBuckets dt \<and> root_entry dt' = root_entry dt
   \<and> next_entry dt \<le> next_entry dt'
   \<and> (\<forall>e<next_entry dt. name (ents dt' e) = name (ents dt e))
   \<and> (\<forall>b. set (hash dt b) \<subseteq> set (hash dt' b))
   \<and> (\<forall>b. \<forall>e\<in>set (hash dt' b). e \<in> set (hash dt b) \<or> name (ents dt' e) \<in> S)"

definition add_ok :: "externals \<Rightarrow> string set \<Rightarrow> DirTree \<Rightarrow> (PHYSFS_ErrorCode + nat) \<times> DirTree \<Rightarrow> bool" where
  "add_ok ext S dt res \<longleftrightarrow>
     tree_inv ext (snd res) \<and> grows S dt (snd res)
   \<and> (\<forall>e. fst res = Inr e \<longrightarrow> e < next_entry (snd res))"

text \<open>
  The root is allocated and on no chain; every other entry the allocator has handed out
  is on the chain of a bucket.
\<close>

definition all_hashed :: "DirTree \<Rightarrow> bool" where
  "all_hashed dt \<longleftrightarrow>
     root_entry dt < next_entry dt
   \<and> (\<forall>b. root_entry dt \<notin> set (hash dt b))
   \<and> (\<forall>e<next_entry dt. e \<noteq> root_entry dt \<longrightarrow> (\<exists>b. e \<in> set (hash dt b)))"

text \<open>Externals for running the tree: the comparison is equality of the byte strings.\<close>

definition ext0 :: externals where
  "ext0 = \<lparr>hashStringCaseFold = PHYSFS_hashStringCaseFoldUSAscii,
           utf8stricmp = (\<lambda>a b. if a = b then 0 else 1)\<rparr>"

text \<open>
  A case-sensitive tree after the add of \<open>a/an\<close>: the add makes the directory \<open>a\<close> first,
  and both names fall into bucket 4.
\<close>

definition two_level_tree :: DirTree where
  "two_level_tree = apply_ops ext0 (DirTreeInit True False) [OpAdd ''a/an'' False]"


section \<open>Unpacked archives and the QPAK adapter\<close>




















section \<open>Properties\<close>

subsection \<open>Path sanitation\<close>

text \<open>
  C1. Claimed: every path accepted by sanitation has a cleaned form without a \<open>..\<close>
  segment, and every input with a \<open>.\<close> or \<open>..\<close> segment is rejected with
  \<open>BAD_FILENAME\<close>. The loop checks a segment only when it meets the separator after it,
  and before the loop only a source that is \<open>.\<close> or \<open>..\<close> as a whole: a last segment
  \<open>..\<close> after a separator is never compared. The source \<open>a/..\<close> is accepted and copied
  unchanged.
\<close>

theorem sanitize_accepts_trailing_dotdot:
  "sanitizePlatformIndependentPath ''a/..'' = Inr ''a/..''"
  by (simp add: sanitizePlatformIndependentPath_def)

subsection \<open>Unmounting with open handles\<close>

lemma unmount_loop_files_still_open:
  assumes "M \<in> set sp" and "distinct (map dirName sp)"
      and "H \<in> set rl" and "dirHandle H = dh_addr M"
  shows "unmount_loop rl (dirName M) sp = Inl PHYSFS_ERR_FILES_STILL_OPEN"
  using assms
proof (induction sp)
  case Nil
  then show ?case by simp
next
  case (Cons i rest)
  show ?case
  proof (cases "i = M")
    case True
    with Cons.prems show ?thesis
      by (auto simp: freeDirHandle_def list_ex_iff)
  next
    case False
    with Cons.prems have in_rest: "M \<in> set rest" by simp
    with Cons.prems have "dirName i \<noteq> dirName M" by auto
    with Cons in_rest show ?thesis by simp
  qed
qed

text \<open>
  C2, as amended. For every mount \<open>M\<close> on a search path whose directory names are pairwise
  distinct (which \<open>doMount\<close> maintains) and every handle \<open>H\<close> on the open-read list that
  points to \<open>M\<close>, unmounting \<open>M\<close>'s directory name fails with \<open>FILES_STILL_OPEN\<close> and
  leaves the whole state, the search path included, as it was.
\<close>

theorem unmount_open_read_handle:
  assumes "M \<in> set (searchPath st)" and "distinct (map dirName (searchPath st))"
      and "H \<in> set (openReadList st)" and "dirHandle H = dh_addr M"
  shows "PHYSFS_unmount st (Some (dirName M)) = (Some PHYSFS_ERR_FILES_STILL_OPEN, st)"
  using unmount_loop_files_still_open[OF assms] by (simp add: PHYSFS_unmount_def)

theorem unmount_open_read_handle_witness:
  "PHYSFS_unmount read_handle_state (Some ''/data'')
     = (Some PHYSFS_ERR_FILES_STILL_OPEN, read_handle_state)"
  using unmount_open_read_handle[of data_mount read_handle_state "handle_on 1 True"]
  by (simp add: read_handle_state_def data_mount_def handle_on_def)

text \<open>
  C2, as claimed, fails for handles on the open-write list: \<open>PHYSFS_unmount\<close> passes only
  the open-read list to \<open>freeDirHandle\<close>. With a write handle open on the write directory
  \<open>/data\<close> and \<open>/data\<close> also mounted, unmounting \<open>/data\<close> succeeds and empties the search
  path; the same happens in a state where a handle of the open-write list points to the
  mount itself.
\<close>

theorem unmount_ignores_write_handles:
  "PHYSFS_unmount write_handle_state (Some ''/data'')
     = (None, write_handle_state\<lparr>searchPath := []\<rparr>)
   \<and> PHYSFS_unmount aliased_write_state (Some ''/data'')
     = (None, aliased_write_state\<lparr>searchPath := []\<rparr>)"
  by (simp add: PHYSFS_unmount_def write_handle_state_def aliased_write_state_def
        data_mount_def data_write_dir_def handle_on_def freeDirHandle_def)

subsection \<open>Mounting twice\<close>

lemma filter_distinct_one:
  "distinct (map g xs) \<Longrightarrow> x \<in> set xs \<Longrightarrow> length (filter (\<lambda>d. g d = g x) xs) = 1"
  by (induction xs) (auto simp: filter_empty_conv image_iff)

lemma createDirHandle_dirName:
  "createDirHandle od a i f mp w = Inr dh \<Longrightarrow> dirName dh = f"
  by (auto simp: createDirHandle_def split: sum.splits option.splits)

lemma createDirHandle_mountable:
  "mountable od i f mp \<Longrightarrow>
     \<exists>dh. createDirHandle od a i f (Some (case mp of None \<Rightarrow> ''/'' | Some m \<Rightarrow> m)) False = Inr dh"
  by (auto simp: mountable_def createDirHandle_def split: sum.splits)

text \<open>
  C6. Take a search path whose directory names are pairwise distinct (as in the empty one,
  and kept so by \<open>doMount\<close>, fourth conjunct) and a source \<open>f\<close> that is already mounted or
  can be mounted. Then mounting \<open>f\<close> succeeds; mounting \<open>f\<close> again, with any stream, mount
  point and position, succeeds and leaves the state of the first mount as it is; and that
  state has exactly one mount whose directory name is \<open>f\<close>. When \<open>f\<close> was not mounted
  before, the first mount links the handle made by \<open>createDirHandle\<close> at the head or the
  tail of the search path; when it was, the first mount changes nothing either.
\<close>

theorem doMount_idempotent:
  assumes d: "distinct (map dirName (searchPath st))"
      and m: "list_ex (\<lambda>i. f = dirName i) (searchPath st) \<or> mountable od i1 f mp1"
  shows "fst (doMount od st i1 (Some f) mp1 app1) = None
       \<and> doMount od (snd (doMount od st i1 (Some f) mp1 app1)) i2 (Some f) mp2 app2
           = (None, snd (doMount od st i1 (Some f) mp1 app1))
       \<and> length (filter (\<lambda>d. dirName d = f) (searchPath (snd (doMount od st i1 (Some f) mp1 app1)))) = 1
       \<and> distinct (map dirName (searchPath (snd (doMount od st i1 (Some f) mp1 app1))))
       \<and> (if list_ex (\<lambda>i. f = dirName i) (searchPath st)
           then snd (doMount od st i1 (Some f) mp1 app1) = st
           else \<exists>dh. createDirHandle od (next_addr st) i1 f
                        (Some (case mp1 of None \<Rightarrow> ''/'' | Some m \<Rightarrow> m)) False = Inr dh
                  \<and> searchPath (snd (doMount od st i1 (Some f) mp1 app1))
                      = (if app1 then searchPath st @ [dh] else dh # searchPath st))"
proof (cases "list_ex (\<lambda>i. f = dirName i) (searchPath st)")
  case True
  then have eq: "doMount od st i1 (Some f) mp1 app1 = (None, st)" by (simp add: doMount_def)
  from True obtain x where x: "x \<in> set (searchPath st)" "dirName x = f"
    by (auto simp: list_ex_iff)
  from filter_distinct_one[OF d x(1)] x(2)
  have "length (filter (\<lambda>d. dirName d = f) (searchPath st)) = 1" by simp
  with True eq d show ?thesis by (simp add: doMount_def)
next
  case False
  with m have "mountable od i1 f mp1" by simp
  from createDirHandle_mountable[OF this, of "next_addr st"] obtain dh where
    dh: "createDirHandle od (next_addr st) i1 f
           (Some (case mp1 of None \<Rightarrow> ''/'' | Some m \<Rightarrow> m)) False = Inr dh" by blast
  let ?st1 = "st\<lparr>searchPath := (if app1 then searchPath st @ [dh] else dh # searchPath st),
                  next_addr := Suc (next_addr st)\<rparr>"
  have eq: "doMount od st i1 (Some f) mp1 app1 = (None, ?st1)"
    using False dh by (simp add: doMount_def Let_def)
  have n: "dirName dh = f" using createDirHandle_dirName[OF dh] .
  from False have nf: "f \<notin> dirName ` set (searchPath st)" by (auto simp: list_ex_iff)
  then have z: "filter (\<lambda>d. dirName d = f) (searchPath st) = []"
    by (auto simp: filter_empty_conv)
  have second: "doMount od ?st1 i2 (Some f) mp2 app2 = (None, ?st1)"
    using n by (auto simp: doMount_def list_ex_iff)
  have cnt: "length (filter (\<lambda>d. dirName d = f) (searchPath ?st1)) = 1"
    using n z by simp
  have dis: "distinct (map dirName (searchPath ?st1))"
    using n nf d by auto
  show ?thesis unfolding eq using False second cnt dis dh by simp
qed

theorem doMount_idempotent_witness:
  "doMount open_any empty_state None (Some ''/data'') None False
     = (None, empty_state\<lparr>searchPath := [data_mount], next_addr := 2\<rparr>)
   \<and> doMount open_any (empty_state\<lparr>searchPath := [data_mount], next_addr := 2\<rparr>) None
       (Some ''/data'') (Some ''/game'') True
     = (None, empty_state\<lparr>searchPath := [data_mount], next_addr := 2\<rparr>)
   \<and> length (filter (\<lambda>d. dirName d = ''/data'')
        (searchPath (empty_state\<lparr>searchPath := [data_mount], next_addr := 2\<rparr>))) = 1"
proof -
  have e: "doMount open_any empty_state None (Some ''/data'') None False
     = (None, empty_state\<lparr>searchPath := [data_mount], next_addr := 2\<rparr>)"
    by (simp add: doMount_def createDirHandle_def sanitizePlatformIndependentPath_def
        open_any_def empty_state_def data_mount_def)
  have m: "mountable open_any None ''/data'' None"
    by (simp add: mountable_def sanitizePlatformIndependentPath_def open_any_def)
  have d: "distinct (map dirName (searchPath empty_state))" by (simp add: empty_state_def)
  from doMount_idempotent[OF d disjI2[OF m], of False None "Some ''/game''" True] e
  show ?thesis by simp
qed

subsection \<open>Seeking in a byte-range stream\<close>

text \<open>
  C3, as amended. A seek to \<open>off\<close> at or past the entry's size fails with \<open>PAST_EOF\<close> and
  changes nothing. Below the size the outcome is that of the parent's seek to
  \<open>startPos + off\<close> (64-bit): when the parent fails its error is passed on, which may itself
  be \<open>PAST_EOF\<close>, and the cursor stays; when it succeeds the seek succeeds and the cursor is
  \<open>off\<close> cut to 32 bits, which is \<open>off\<close> itself below \<open>2^32\<close>.
\<close>

theorem UNPK_seek_outcome:
  "(size_f (entry finfo) \<le> off \<longrightarrow> UNPK_seek finfo off = (Some PHYSFS_ERR_PAST_EOF, finfo))
   \<and> (off < size_f (entry finfo) \<longrightarrow>
        fst (UNPK_seek finfo off)
          = fst (call_seek (finfo_io finfo) (startPos (entry finfo) + off))
        \<and> finfo_io (snd (UNPK_seek finfo off))
          = snd (call_seek (finfo_io finfo) (startPos (entry finfo) + off))
        \<and> unat (curPos (snd (UNPK_seek finfo off)))
          = (if fst (call_seek (finfo_io finfo) (startPos (entry finfo) + off)) = None
             then unat off mod 2 ^ 32 else unat (curPos finfo)))"
  by (auto simp: UNPK_seek_def unsigned_ucast_eq take_bit_eq_mod split: prod.splits)

theorem UNPK_seek_outcome_witness:
  "UNPK_seek small_finfo 5 = (Some PHYSFS_ERR_PAST_EOF, small_finfo)
   \<and> fst (UNPK_seek small_finfo 4) = None
   \<and> unat (curPos (snd (UNPK_seek small_finfo 4))) = 4"
  using UNPK_seek_outcome[of small_finfo 5] UNPK_seek_outcome[of small_finfo 4]
  by (simp add: small_finfo_def call_seek_def PHYSFS_createMemoryIo_def memoryIo_seek_def)

text \<open>
  C3, as claimed, fails twice. Over a memory stream of 32 bytes, an entry at 32 of size 100
  (an archive cut short): the seek to 50, below the size, fails with \<open>PAST_EOF\<close>, the
  parent's error. For an entry of size \<open>2^32 + 1\<close> the seek to \<open>2^32\<close> succeeds and
  leaves the cursor at 0.
\<close>

theorem UNPK_seek_claim_fails:
  "fst (UNPK_seek truncated_finfo 50) = Some PHYSFS_ERR_PAST_EOF
   \<and> (50 :: 64 word) < size_f (entry truncated_finfo)
   \<and> fst (UNPK_seek huge_finfo 4294967296) = None
   \<and> (4294967296 :: 64 word) < size_f (entry huge_finfo)
   \<and> curPos (snd (UNPK_seek huge_finfo 4294967296)) = 0"
  by (simp add: UNPK_seek_def truncated_finfo_def huge_finfo_def call_seek_def
        PHYSFS_createMemoryIo_def memoryIo_seek_def)

subsection \<open>Buffered writes\<close>

text \<open>
  C7. Claimed: a write that does not take the fill past \<open>bufsize\<close> is copied into the
  buffer and nothing reaches the stream. \<open>doBufferedWrite\<close> tests
  \<open>buffill + len < bufsize\<close>, so a write that fills the buffer exactly does not fit: with
  \<open>bufsize = 8\<close>, \<open>buffill = 3\<close> and 5 bytes to write, the 3 buffered bytes are flushed and
  the 5 new ones are written to the stream, and the buffer is left empty.
\<close>

theorem doBufferedWrite_exact_fit:
  "doBufferedWrite full_write_handle ''defgh''
     = (5, full_write_handle\<lparr>io := sink_Io ''abcdefgh'', buffill := 0\<rparr>)"
  by (simp add: doBufferedWrite_def PHYSFS_flush_def call_write_def sink_Io_def
        buffer_bytes_def full_write_handle_def)

subsection \<open>End of file\<close>

text \<open>
  C10. \<open>PHYSFS_eof\<close> is true exactly for a read handle whose buffer is drained
  (\<open>bufpos = buffill\<close>) and whose stream reports a position and a length that are both
  non-negative, the position at or past the length. So it is false for every handle opened
  for writing or appending whatever the stream says, and false when \<open>tell\<close> or \<open>length\<close>
  reports \<open>-1\<close>.
\<close>

theorem PHYSFS_eof_iff:
  "PHYSFS_eof fh \<longleftrightarrow>
     forReading fh \<and> bufpos fh = buffill fh
     \<and> 0 \<le> call_tell (io fh) \<and> 0 \<le> call_length (io fh)
     \<and> call_length (io fh) \<le> call_tell (io fh)"
  by (auto simp: PHYSFS_eof_def Let_def)

subsection \<open>Finding what was added to a directory tree\<close>

lemma name_cmp_same: "name_cmp ext dt r path = same_name ext dt (name (ents dt r)) path"
  by (simp add: name_cmp_def same_name_def)

lemma stricmp_okD:
  assumes "stricmp_ok ext"
  shows "utf8stricmp ext a a = 0"
    and "utf8stricmp ext a b = 0 \<Longrightarrow> utf8stricmp ext b a = 0"
    and "utf8stricmp ext a b = 0 \<Longrightarrow> utf8stricmp ext b c = 0 \<Longrightarrow> utf8stricmp ext a c = 0"
    and "k < length a \<Longrightarrow> a ! k = CHR ''/'' \<Longrightarrow> utf8stricmp ext (take k a) a \<noteq> 0"
  using assms unfolding stricmp_ok_def by blast+

lemma same_refl: "stricmp_ok ext \<Longrightarrow> same_name ext dt a a"
  using stricmp_okD(1)[of ext a] by (simp add: same_name_def)

lemma same_sym: "stricmp_ok ext \<Longrightarrow> same_name ext dt a b \<Longrightarrow> same_name ext dt b a"
  using stricmp_okD(2)[of ext a b] by (cases "case_sensitive dt") (simp_all add: same_name_def)

lemma same_trans:
  "stricmp_ok ext \<Longrightarrow> same_name ext dt a b \<Longrightarrow> same_name ext dt b c \<Longrightarrow> same_name ext dt a c"
  using stricmp_okD(3)[of ext a b c] by (cases "case_sensitive dt") (simp_all add: same_name_def)

lemma take_neq: "k < length a \<Longrightarrow> take k a \<noteq> a"
proof
  assume "k < length a" and "take k a = a"
  then have "length (take k a) = length a" by simp
  with \<open>k < length a\<close> show False by simp
qed

lemma same_prefix:
  "stricmp_ok ext \<Longrightarrow> k < length a \<Longrightarrow> a ! k = CHR ''/'' \<Longrightarrow> \<not> same_name ext dt (take k a) a"
  using stricmp_okD(4)[of ext k a] by (cases "case_sensitive dt") (simp_all add: same_name_def take_neq)

lemma find_chain_None: "find_chain m prev ch = None \<longleftrightarrow> (\<forall>x\<in>set ch. \<not> m x)"
  by (induction ch arbitrary: prev) auto

lemma find_chain_Some:
  "find_chain m prev ch = Some (r, ch') \<Longrightarrow>
     r \<in> set ch \<and> m r \<and> set ch' = set prev \<union> set ch \<and> (distinct (prev @ ch) \<longrightarrow> distinct ch')"
  by (induction ch arbitrary: prev) (auto split: if_splits)

lemma find_chain_unique:
  "e \<in> set ch \<Longrightarrow> m e \<Longrightarrow> (\<forall>x\<in>set ch. m x \<longrightarrow> x = e) \<Longrightarrow> \<exists>ch'. find_chain m prev ch = Some (e, ch')"
proof (induction ch arbitrary: prev)
  case Nil
  then show ?case by simp
next
  case (Cons r rest)
  show ?case
  proof (cases "m r")
    case True
    with Cons.prems(3) have "r = e" by simp
    with True show ?thesis by simp
  next
    case False
    with Cons.prems have "e \<in> set rest" by auto
    moreover from Cons.prems(3) have "\<forall>x\<in>set rest. m x \<longrightarrow> x = e" by simp
    ultimately have "\<exists>ch'. find_chain m (prev @ [r]) rest = Some (e, ch')"
      using Cons.IH[of "prev @ [r]"] Cons.prems(2) by blast
    with False show ?thesis by simp
  qed
qed

lemma hashPathName_cong:
  "case_sensitive dt' = case_sensitive dt \<Longrightarrow> only_usascii dt' = only_usascii dt \<Longrightarrow>
   hashBuckets dt' = hashBuckets dt \<Longrightarrow> hashPathName ext dt' = hashPathName ext dt"
  by (auto simp: hashPathName_def fun_eq_iff)

lemma same_name_cong:
  "case_sensitive dt' = case_sensitive dt \<Longrightarrow> same_name ext dt' = same_name ext dt"
  by (auto simp: same_name_def fun_eq_iff)

lemma find_same_entries: "same_entries dt (snd (DirTreeFind ext dt p))"
  by (auto simp: DirTreeFind_def same_entries_def Let_def split: option.splits dest!: find_chain_Some)

lemma find_distinct:
  "\<forall>b. distinct (hash dt b) \<Longrightarrow> distinct (hash (snd (DirTreeFind ext dt p)) b)"
  by (auto simp: DirTreeFind_def Let_def split: option.splits dest!: find_chain_Some)

lemma find_fail_same: "DirTreeFind ext dt p = (Inl e, dt') \<Longrightarrow> dt' = dt"
  by (auto simp: DirTreeFind_def Let_def split: option.splits if_splits)

lemma tree_inv_same_entries:
  "tree_inv ext dt \<Longrightarrow> same_entries dt dt' \<Longrightarrow> (\<forall>b. distinct (hash dt' b)) \<Longrightarrow> tree_inv ext dt'"
  unfolding tree_inv_def same_entries_def
  by (auto simp: hashPathName_cong[of dt' dt] same_name_cong[of dt' dt])

lemma tree_inv_find: "tree_inv ext dt \<Longrightarrow> tree_inv ext (snd (DirTreeFind ext dt p))"
  by (rule tree_inv_same_entries[OF _ find_same_entries]) (auto simp: tree_inv_def intro: find_distinct)

lemma find_result:
  assumes "DirTreeFind ext dt p = (Inr e, dt')"
  shows "(p = [] \<and> e = root_entry dt) \<or>
         (p \<noteq> [] \<and> e \<in> set (hash dt (hashPathName ext dt p)) \<and> same_name ext dt (name (ents dt e)) p)"
  using assms
  by (auto simp: DirTreeFind_def Let_def name_cmp_same split: option.splits if_splits dest!: find_chain_Some)

lemma find_fail:
  assumes "DirTreeFind ext dt p = (Inl e, dt')"
  shows "p \<noteq> [] \<and> (\<forall>x\<in>set (hash dt (hashPathName ext dt p)). \<not> same_name ext dt (name (ents dt x)) p)"
  using assms
  by (auto simp: DirTreeFind_def Let_def name_cmp_same find_chain_None split: option.splits if_splits)

lemma find_entry:
  assumes ok: "stricmp_ok ext" and inv: "tree_inv ext dt" and e: "e \<in> set (hash dt b)"
  shows "fst (DirTreeFind ext dt (name (ents dt e))) = Inr e"
proof -
  from inv e have ne: "name (ents dt e) \<noteq> []" and hb: "hashPathName ext dt (name (ents dt e)) = b"
    by (auto simp: tree_inv_def)
  let ?m = "\<lambda>r. name_cmp ext dt r (name (ents dt e))"
  have "?m e" by (simp add: name_cmp_same same_refl[OF ok])
  moreover have "\<forall>x\<in>set (hash dt b). ?m x \<longrightarrow> x = e"
    using inv e by (auto simp: tree_inv_def name_cmp_same)
  ultimately obtain ch' where "find_chain ?m [] (hash dt b) = Some (e, ch')"
    using find_chain_unique[OF e, of ?m "[]"] by blast
  then show ?thesis using ne hb by (simp add: DirTreeFind_def Let_def)
qed

lemma find_chain_fst: "map_option fst (find_chain m prev ch) = List.find m ch"
  by (induction ch arbitrary: prev) auto

lemma find_lookup: "fst (DirTreeFind ext dt q) = lookup ext dt q"
proof (cases "q = []")
  case True then show ?thesis by (simp add: DirTreeFind_def lookup_def)
next
  case False
  let ?m = "\<lambda>r. name_cmp ext dt r q"
  let ?ch = "hash dt (hashPathName ext dt q)"
  have "map_option fst (find_chain ?m [] ?ch) = List.find ?m ?ch" by (rule find_chain_fst)
  then show ?thesis using False
    by (cases "find_chain ?m [] ?ch") (auto simp: DirTreeFind_def lookup_def Let_def name_cmp_same split: option.splits)
qed

lemma find_unique_set:
  assumes "\<And>x y. x \<in> set xs \<Longrightarrow> y \<in> set xs \<Longrightarrow> P x \<Longrightarrow> P y \<Longrightarrow> x = y" "set ys = set xs"
  shows "List.find P ys = List.find P xs"
proof (cases "List.find P xs")
  case None
  then have "\<forall>x\<in>set ys. \<not> P x" using assms(2) by (simp add: find_None_iff)
  then have "List.find P ys = None" by (simp add: find_None_iff)
  with None show ?thesis by simp
next
  case (Some e)
  then have e: "e \<in> set xs" "P e" by (auto simp: find_Some_iff)
  have "\<exists>z. List.find P ys = Some z" using e assms(2)
    by (cases "List.find P ys") (auto simp: find_None_iff)
  then obtain z where z: "List.find P ys = Some z" by blast
  then have "z \<in> set ys" "P z" by (auto simp: find_Some_iff)
  with e assms have "z = e" by auto
  with z Some show ?thesis by simp
qed

lemma lookup_same_entries:
  assumes ok: "stricmp_ok ext" and inv: "tree_inv ext dt" and se: "same_entries dt dt'"
  shows "lookup ext dt' q = lookup ext dt q"
proof -
  have hp: "hashPathName ext dt' = hashPathName ext dt" and sn: "same_name ext dt' = same_name ext dt"
    using se by (auto simp: same_entries_def intro: hashPathName_cong same_name_cong)
  have en: "ents dt' = ents dt" and rt: "root_entry dt' = root_entry dt"
    and st: "set (hash dt' (hashPathName ext dt q)) = set (hash dt (hashPathName ext dt q))"
    using se by (auto simp: same_entries_def)
  let ?P = "\<lambda>r. same_name ext dt (name (ents dt r)) q"
  have "List.find ?P (hash dt' (hashPathName ext dt q)) = List.find ?P (hash dt (hashPathName ext dt q))"
  proof (rule find_unique_set[OF _ st])
    fix x y assume x: "x \<in> set (hash dt (hashPathName ext dt q))" and y: "y \<in> set (hash dt (hashPathName ext dt q))"
      and px: "?P x" and py: "?P y"
    from py have "same_name ext dt q (name (ents dt y))" by (rule same_sym[OF ok])
    with px have "same_name ext dt (name (ents dt x)) (name (ents dt y))" by (rule same_trans[OF ok])
    with inv x y show "x = y" unfolding tree_inv_def by blast
  qed
  then show ?thesis by (simp add: lookup_def hp sn en rt)
qed

lemma find_after_find:
  assumes ok: "stricmp_ok ext" and inv: "tree_inv ext dt"
  shows "fst (DirTreeFind ext (snd (DirTreeFind ext dt p)) q) = fst (DirTreeFind ext dt q)"
  by (simp only: find_lookup lookup_same_entries[OF ok inv find_same_entries])

lemma strrchr_Some: "strrchr s c = Some k \<Longrightarrow> k < length s \<and> s ! k = c"
proof -
  assume a: "strrchr s c = Some k"
  then have c: "c \<in> set s" and k: "k = length s - Suc (length (takeWhile (\<lambda>x. x \<noteq> c) (rev s)))"
    by (auto simp: strrchr_def split: if_splits)
  let ?n = "length (takeWhile (\<lambda>x. x \<noteq> c) (rev s))"
  from c have "dropWhile (\<lambda>x. x \<noteq> c) (rev s) \<noteq> []"
    by (auto simp: dropWhile_eq_Nil_conv)
  moreover have "length (takeWhile (\<lambda>x. x \<noteq> c) (rev s)) + length (dropWhile (\<lambda>x. x \<noteq> c) (rev s)) = length (rev s)"
    by (simp flip: length_append)
  ultimately have n: "?n < length (rev s)"
    by (cases "dropWhile (\<lambda>x. x \<noteq> c) (rev s)") auto
  then have "rev s ! ?n = c"
    using nth_length_takeWhile[of "\<lambda>x. x \<noteq> c" "rev s"] by simp
  moreover have "rev s ! ?n = s ! (length s - Suc ?n)" using n by (simp add: rev_nth)
  ultimately show ?thesis using k n by simp
qed

lemma prefixes_take:
  assumes "k < length nm"
  shows "prefixes (take k nm) \<subseteq> prefixes nm"
proof
  fix p assume "p \<in> prefixes (take k nm)"
  then obtain j where j: "p = take j (take k nm)" "j < length (take k nm)" "take k nm ! j = CHR ''/''"
    by (auto simp: prefixes_def)
  then have "j < k" "j < length nm" using assms by auto
  then have "p = take j nm" "nm ! j = CHR ''/''" using j by (auto simp: min_def)
  then show "p \<in> prefixes nm" using \<open>j < length nm\<close> by (auto simp: prefixes_def)
qed

lemma grows_same_entries: "same_entries dt dt' \<Longrightarrow> grows S dt dt'"
  by (simp add: same_entries_def grows_def)

lemma grows_refl: "grows S dt dt"
  by (simp add: grows_def)

lemma grows_mono: "grows S dt dt' \<Longrightarrow> S \<subseteq> S' \<Longrightarrow> grows S' dt dt'"
  unfolding grows_def by blast

lemma grows_trans:
  assumes g1: "grows S1 dt1 dt2" and inv: "tree_inv ext dt2" and g2: "grows S2 dt2 dt3"
  shows "grows (S1 \<union> S2) dt1 dt3"
proof -
  have lt: "\<And>b e. e \<in> set (hash dt2 b) \<Longrightarrow> e < next_entry dt2"
    using inv by (simp add: tree_inv_def)
  have n: "\<And>e. e < next_entry dt1 \<Longrightarrow> name (ents dt3 e) = name (ents dt1 e)"
  proof -
    fix e assume e: "e < next_entry dt1"
    with g1 have "e < next_entry dt2" by (simp add: grows_def)
    with g2 have "name (ents dt3 e) = name (ents dt2 e)" by (simp add: grows_def)
    moreover from g1 e have "name (ents dt2 e) = name (ents dt1 e)" by (simp add: grows_def)
    ultimately show "name (ents dt3 e) = name (ents dt1 e)" by simp
  qed
  have h: "\<And>b e. e \<in> set (hash dt3 b) \<Longrightarrow> e \<in> set (hash dt1 b) \<or> name (ents dt3 e) \<in> S1 \<union> S2"
  proof -
    fix b e assume e: "e \<in> set (hash dt3 b)"
    with g2 have "e \<in> set (hash dt2 b) \<or> name (ents dt3 e) \<in> S2" unfolding grows_def by blast
    then show "e \<in> set (hash dt1 b) \<or> name (ents dt3 e) \<in> S1 \<union> S2"
    proof
      assume e2: "e \<in> set (hash dt2 b)"
      with g1 have "e \<in> set (hash dt1 b) \<or> name (ents dt2 e) \<in> S1" unfolding grows_def by blast
      moreover from g2 lt[OF e2] have "name (ents dt3 e) = name (ents dt2 e)" by (simp add: grows_def)
      ultimately show ?thesis by auto
    qed simp
  qed
  have s: "\<And>b. set (hash dt1 b) \<subseteq> set (hash dt3 b)"
    using g1 g2 unfolding grows_def by blast
  show ?thesis unfolding grows_def
    using g1 g2 n h s by (simp add: grows_def)
qed

lemma link_entry_fields:
  "case_sensitive (link_entry dt r hv nm d p) = case_sensitive dt"
  "only_usascii (link_entry dt r hv nm d p) = only_usascii dt"
  "hashBuckets (link_entry dt r hv nm d p) = hashBuckets dt"
  "root_entry (link_entry dt r hv nm d p) = root_entry dt"
  "next_entry (link_entry dt r hv nm d p) = Suc r"
  "hash (link_entry dt r hv nm d p) b = (if b = hv then r # hash dt hv else hash dt b)"
  "name (ents (link_entry dt r hv nm d p) e) = (if e = r then nm else name (ents dt e))"
  by (simp_all add: link_entry_def Let_def zero_entry_def)

lemma link_entry_inv:
  assumes ok: "stricmp_ok ext" and inv: "tree_inv ext dt" and ne: "nm \<noteq> []"
    and nomatch: "\<forall>e\<in>set (hash dt (hashPathName ext dt nm)). \<not> same_name ext dt (name (ents dt e)) nm"
  shows "tree_inv ext (link_entry dt (next_entry dt) (hashPathName ext dt nm) nm d parent)"
proof -
  let ?r = "next_entry dt" and ?hv = "hashPathName ext dt nm"
  let ?dt' = "link_entry dt ?r ?hv nm d parent"
  have hp: "hashPathName ext ?dt' = hashPathName ext dt"
    by (rule hashPathName_cong) (simp_all add: link_entry_fields)
  have sn: "same_name ext ?dt' = same_name ext dt"
    by (rule same_name_cong) (simp add: link_entry_fields)
  have lt: "\<And>b e. e \<in> set (hash dt b) \<Longrightarrow> e < ?r" using inv by (simp add: tree_inv_def)
  have fresh: "\<And>b. ?r \<notin> set (hash dt b)" using lt by blast
  have old: "\<And>b e. e \<in> set (hash dt b) \<Longrightarrow> name (ents dt e) \<noteq> [] \<and> hashPathName ext dt (name (ents dt e)) = b"
    using inv by (simp add: tree_inv_def)
  have uniq: "\<And>b e1 e2. e1 \<in> set (hash dt b) \<Longrightarrow> e2 \<in> set (hash dt b) \<Longrightarrow>
      same_name ext dt (name (ents dt e1)) (name (ents dt e2)) \<Longrightarrow> e1 = e2"
    using inv unfolding tree_inv_def by blast
  have nomatch': "\<And>e. e \<in> set (hash dt ?hv) \<Longrightarrow> \<not> same_name ext dt nm (name (ents dt e))"
    using nomatch same_sym[OF ok] by blast
  have 1: "root_entry ?dt' < next_entry ?dt'"
    using inv by (simp add: link_entry_fields tree_inv_def)
  have 2: "\<forall>b. distinct (hash ?dt' b)"
    using inv fresh by (simp add: link_entry_fields tree_inv_def)
  have 3: "\<forall>b. \<forall>e\<in>set (hash ?dt' b). e < next_entry ?dt' \<and> name (ents ?dt' e) \<noteq> []
                \<and> hashPathName ext ?dt' (name (ents ?dt' e)) = b"
  proof (intro allI ballI)
    fix b e assume e: "e \<in> set (hash ?dt' b)"
    show "e < next_entry ?dt' \<and> name (ents ?dt' e) \<noteq> [] \<and> hashPathName ext ?dt' (name (ents ?dt' e)) = b"
    proof (cases "e = ?r")
      case True
      with e fresh have "b = ?hv" by (auto simp: link_entry_fields split: if_splits)
      with True ne show ?thesis by (simp add: link_entry_fields hp)
    next
      case False
      with e have e': "e \<in> set (hash dt b)" by (auto simp: link_entry_fields split: if_splits)
      from lt[OF e'] old[OF e'] False show ?thesis by (simp add: link_entry_fields hp)
    qed
  qed
  have 4: "\<forall>b. \<forall>e1\<in>set (hash ?dt' b). \<forall>e2\<in>set (hash ?dt' b).
          same_name ext ?dt' (name (ents ?dt' e1)) (name (ents ?dt' e2)) \<longrightarrow> e1 = e2"
  proof (intro allI ballI impI)
    fix b e1 e2 assume e1: "e1 \<in> set (hash ?dt' b)" and e2: "e2 \<in> set (hash ?dt' b)"
      and s: "same_name ext ?dt' (name (ents ?dt' e1)) (name (ents ?dt' e2))"
    have mem: "\<And>e. e \<in> set (hash ?dt' b) \<Longrightarrow> e \<noteq> ?r \<Longrightarrow> e \<in> set (hash dt b)"
      by (auto simp: link_entry_fields split: if_splits)
    have newb: "\<And>e. e \<in> set (hash ?dt' b) \<Longrightarrow> e = ?r \<Longrightarrow> b = ?hv"
      using fresh by (auto simp: link_entry_fields split: if_splits)
    show "e1 = e2"
    proof (cases "e1 = ?r")
      case True
      show ?thesis
      proof (cases "e2 = ?r")
        case True with \<open>e1 = ?r\<close> show ?thesis by simp
      next
        case False
        from newb[OF e1 True] mem[OF e2 False] have "e2 \<in> set (hash dt ?hv)" by simp
        from nomatch'[OF this] s True False show ?thesis by (simp add: sn link_entry_fields)
      qed
    next
      case False
      note f1 = this
      show ?thesis
      proof (cases "e2 = ?r")
        case True
        from newb[OF e2 True] mem[OF e1 f1] have "e1 \<in> set (hash dt ?hv)" by simp
        with nomatch s True f1 show ?thesis by (simp add: sn link_entry_fields)
      next
        case False
        from s f1 False have "same_name ext dt (name (ents dt e1)) (name (ents dt e2))"
          by (simp add: sn link_entry_fields)
        from uniq[OF mem[OF e1 f1] mem[OF e2 False] this] show ?thesis .
      qed
    qed
  qed
  show ?thesis unfolding tree_inv_def using 1 2 3 4 by blast
qed

lemma link_entry_grows:
  "grows {nm} dt (link_entry dt (next_entry dt) hv nm d parent)"
  by (auto simp: grows_def link_entry_fields)

lemma find_ok:
  assumes inv: "tree_inv ext dt" and f: "DirTreeFind ext dt p = (Inr r, dt1)"
  shows "tree_inv ext dt1" "grows S dt dt1" "r < next_entry dt1"
    "p \<noteq> [] \<Longrightarrow> r \<in> set (hash dt1 (hashPathName ext dt p)) \<and> same_name ext dt (name (ents dt1 r)) p"
proof -
  have dt1: "dt1 = snd (DirTreeFind ext dt p)" using f by simp
  have se: "same_entries dt dt1" unfolding dt1 by (rule find_same_entries)
  show "tree_inv ext dt1" unfolding dt1 by (rule tree_inv_find[OF inv])
  show "grows S dt dt1" by (rule grows_same_entries[OF se])
  from find_result[OF f] inv have "r < next_entry dt" by (auto simp: tree_inv_def)
  with se show "r < next_entry dt1" by (simp add: same_entries_def)
  assume "p \<noteq> []"
  with find_result[OF f] se
  show "r \<in> set (hash dt1 (hashPathName ext dt p)) \<and> same_name ext dt (name (ents dt1 r)) p"
    by (auto simp: same_entries_def)
qed

lemma addAncestors_step:
  assumes ok: "stricmp_ok ext" and inv: "tree_inv ext dt"
    and IH: "\<And>sep nf dt1. strrchr nm CHR ''/'' = Some sep \<Longrightarrow>
               DirTreeFind ext dt (take sep nm) = (Inl nf, dt1) \<Longrightarrow>
               add_ok ext (insert (take sep nm) (prefixes (take sep nm))) dt1 (DirTreeAdd ext dt1 (take sep nm) True)"
  shows "add_ok ext (prefixes nm) dt (addAncestors ext dt nm)"
proof (cases "strrchr nm CHR ''/''")
  case None
  then show ?thesis using inv by (simp add: add_ok_def grows_refl tree_inv_def)
next
  case (Some sep)
  from strrchr_Some[OF Some] have sep: "sep < length nm" "nm ! sep = CHR ''/''" by auto
  obtain r0 dt1 where f: "DirTreeFind ext dt (take sep nm) = (r0, dt1)"
    by (cases "DirTreeFind ext dt (take sep nm)")
  show ?thesis
  proof (cases r0)
    case (Inr r)
    from find_ok(1)[OF inv f[unfolded Inr]] find_ok(2)[OF inv f[unfolded Inr], of "prefixes nm"]
      find_ok(3)[OF inv f[unfolded Inr]] Some f Inr
    show ?thesis by (simp add: add_ok_def)
  next
    case (Inl nf)
    with f have dt1: "dt1 = dt" by (auto dest: find_fail_same)
    from IH[OF Some f[unfolded Inl]]
    have a: "add_ok ext (insert (take sep nm) (prefixes (take sep nm))) dt (DirTreeAdd ext dt (take sep nm) True)"
      by (simp add: dt1)
    have sub: "insert (take sep nm) (prefixes (take sep nm)) \<subseteq> prefixes nm"
      using prefixes_take[OF sep(1)] sep by (auto simp: prefixes_def)
    have eq: "addAncestors ext dt nm = DirTreeAdd ext dt (take sep nm) True"
      using Some f Inl dt1 by simp
    show ?thesis unfolding eq using a grows_mono[OF _ sub] by (auto simp: add_ok_def)
  qed
qed

lemma DirTreeAdd_step:
  assumes ok: "stricmp_ok ext" and inv: "tree_inv ext dt"
    and IH: "\<And>nf dt1. DirTreeFind ext dt nm = (Inl nf, dt1) \<Longrightarrow>
               add_ok ext (prefixes nm) dt1 (addAncestors ext dt1 nm)"
  shows "add_ok ext (insert nm (prefixes nm)) dt (DirTreeAdd ext dt nm d)"
    and "\<And>e. fst (DirTreeAdd ext dt nm d) = Inr e \<Longrightarrow> nm \<noteq> [] \<Longrightarrow>
           e \<in> set (hash (snd (DirTreeAdd ext dt nm d)) (hashPathName ext dt nm))
           \<and> same_name ext dt (name (ents (snd (DirTreeAdd ext dt nm d)) e)) nm"
proof -
  obtain r0 dt1 where f: "DirTreeFind ext dt nm = (r0, dt1)"
    by (cases "DirTreeFind ext dt nm")
  have "add_ok ext (insert nm (prefixes nm)) dt (DirTreeAdd ext dt nm d) \<and>
        (\<forall>e. fst (DirTreeAdd ext dt nm d) = Inr e \<longrightarrow> nm \<noteq> [] \<longrightarrow>
           e \<in> set (hash (snd (DirTreeAdd ext dt nm d)) (hashPathName ext dt nm))
           \<and> same_name ext dt (name (ents (snd (DirTreeAdd ext dt nm d)) e)) nm)"
  proof (cases r0)
    case (Inr r)
    from find_ok(1)[OF inv f[unfolded Inr]]
      find_ok(2)[OF inv f[unfolded Inr], of "insert nm (prefixes nm)"]
      find_ok(3)[OF inv f[unfolded Inr]] find_ok(4)[OF inv f[unfolded Inr]] f Inr
    show ?thesis by (simp add: add_ok_def)
  next
    case (Inl nf)
    with f have dt1: "dt1 = dt" by (auto dest: find_fail_same)
    from find_fail[OF f[unfolded Inl]] have ne: "nm \<noteq> []"
      and nm0: "\<forall>x\<in>set (hash dt (hashPathName ext dt nm)). \<not> same_name ext dt (name (ents dt x)) nm"
      by auto
    from IH[OF f[unfolded Inl]] have a: "add_ok ext (prefixes nm) dt (addAncestors ext dt nm)"
      by (simp add: dt1)
    obtain ra dt2 where aa: "addAncestors ext dt nm = (ra, dt2)" by (cases "addAncestors ext dt nm")
    from a aa have inv2: "tree_inv ext dt2" and g2: "grows (prefixes nm) dt dt2"
      by (simp_all add: add_ok_def)
    show ?thesis
    proof (cases ra)
      case (Inl e)
      have "DirTreeAdd ext dt nm d = (Inl e, dt2)" using f \<open>r0 = Inl nf\<close> dt1 aa Inl by simp
      then show ?thesis using inv2 grows_mono[OF g2, of "insert nm (prefixes nm)"]
        by (auto simp: add_ok_def)
    next
      case (Inr parent)
      let ?hv = "hashPathName ext dt2 nm"
      let ?dt3 = "link_entry dt2 (next_entry dt2) ?hv nm d parent"
      have res: "DirTreeAdd ext dt nm d = (Inr (next_entry dt2), ?dt3)"
        using f \<open>r0 = Inl nf\<close> dt1 aa Inr by simp
      have hp: "hashPathName ext dt2 = hashPathName ext dt"
        using g2 by (auto simp: grows_def intro: hashPathName_cong)
      have sn: "same_name ext dt2 = same_name ext dt"
        using g2 by (auto simp: grows_def intro: same_name_cong)
      have lt: "\<And>b e. e \<in> set (hash dt b) \<Longrightarrow> e < next_entry dt"
        using inv by (simp add: tree_inv_def)
      have nomatch: "\<forall>e\<in>set (hash dt2 ?hv). \<not> same_name ext dt2 (name (ents dt2 e)) nm"
      proof
        fix e assume e: "e \<in> set (hash dt2 ?hv)"
        with g2 have "e \<in> set (hash dt ?hv) \<or> name (ents dt2 e) \<in> prefixes nm"
          unfolding grows_def by blast
        then show "\<not> same_name ext dt2 (name (ents dt2 e)) nm"
        proof
          assume e0: "e \<in> set (hash dt ?hv)"
          from g2 lt[OF e0] have "name (ents dt2 e) = name (ents dt e)" by (simp add: grows_def)
          with nm0 e0 show ?thesis by (simp add: sn hp)
        next
          assume "name (ents dt2 e) \<in> prefixes nm"
          then obtain k where "name (ents dt2 e) = take k nm" "k < length nm" "nm ! k = CHR ''/''"
            by (auto simp: prefixes_def)
          with same_prefix[OF ok, of k nm dt2] show ?thesis by simp
        qed
      qed
      have inv3: "tree_inv ext ?dt3" by (rule link_entry_inv[OF ok inv2 ne nomatch])
      have g3: "grows {nm} dt2 ?dt3" by (rule link_entry_grows)
      have g: "grows (insert nm (prefixes nm)) dt ?dt3"
        using grows_trans[OF g2 inv2 g3] by (simp add: Un_commute)
      show ?thesis unfolding res using inv3 g same_refl[OF ok, of dt nm]
        by (simp add: add_ok_def link_entry_fields hp)
    qed
  qed
  then show "add_ok ext (insert nm (prefixes nm)) dt (DirTreeAdd ext dt nm d)"
    and "\<And>e. fst (DirTreeAdd ext dt nm d) = Inr e \<Longrightarrow> nm \<noteq> [] \<Longrightarrow>
           e \<in> set (hash (snd (DirTreeAdd ext dt nm d)) (hashPathName ext dt nm))
           \<and> same_name ext dt (name (ents (snd (DirTreeAdd ext dt nm d)) e)) nm"
    by blast+
qed

lemma add_ok_both:
  "(stricmp_ok ext \<longrightarrow> tree_inv ext dt \<longrightarrow> add_ok ext (insert nm (prefixes nm)) dt (DirTreeAdd ext dt nm d))"
  "(stricmp_ok ext \<longrightarrow> tree_inv ext dt \<longrightarrow> add_ok ext (prefixes nm) dt (addAncestors ext dt nm))"
proof (induction ext dt nm d and ext dt nm rule: DirTreeAdd_addAncestors.induct)
  case (1 ext dt nm d)
  show ?case
  proof (intro impI)
    assume ok: "stricmp_ok ext" and inv: "tree_inv ext dt"
    show "add_ok ext (insert nm (prefixes nm)) dt (DirTreeAdd ext dt nm d)"
    proof (rule DirTreeAdd_step(1)[OF ok inv])
      fix nf dt1 assume f: "DirTreeFind ext dt nm = (Inl nf, dt1)"
      then have "dt1 = dt" by (rule find_fail_same)
      with 1[OF f[symmetric] refl] ok inv show "add_ok ext (prefixes nm) dt1 (addAncestors ext dt1 nm)" by simp
    qed
  qed
next
  case (2 ext dt nm)
  show ?case
  proof (intro impI)
    assume ok: "stricmp_ok ext" and inv: "tree_inv ext dt"
    show "add_ok ext (prefixes nm) dt (addAncestors ext dt nm)"
    proof (rule addAncestors_step[OF ok inv])
      fix sep nf dt1 assume s: "strrchr nm CHR ''/'' = Some sep"
        and f: "DirTreeFind ext dt (take sep nm) = (Inl nf, dt1)"
      then have "dt1 = dt" by (auto dest: find_fail_same)
      with 2[OF s f[symmetric] refl] ok inv
      show "add_ok ext (insert (take sep nm) (prefixes (take sep nm))) dt1 (DirTreeAdd ext dt1 (take sep nm) True)"
        by simp
    qed
  qed
qed

lemma tree_inv_init: "tree_inv ext (DirTreeInit cs ua)"
  by (simp add: tree_inv_def DirTreeInit_def)

lemma fill_entry_fields:
  "case_sensitive (fill_entry dt a d ct mt p l) = case_sensitive dt"
  "only_usascii (fill_entry dt a d ct mt p l) = only_usascii dt"
  "hashBuckets (fill_entry dt a d ct mt p l) = hashBuckets dt"
  "root_entry (fill_entry dt a d ct mt p l) = root_entry dt"
  "next_entry (fill_entry dt a d ct mt p l) = next_entry dt"
  "hash (fill_entry dt a d ct mt p l) = hash dt"
  "name (ents (fill_entry dt a d ct mt p l) e) = name (ents dt e)"
  by (simp_all add: fill_entry_def)

lemma tree_inv_fill: "tree_inv ext dt \<Longrightarrow> tree_inv ext (fill_entry dt a d ct mt p l)"
  unfolding tree_inv_def
  by (simp add: fill_entry_fields hashPathName_cong[of "fill_entry dt a d ct mt p l" dt]
        same_name_cong[of "fill_entry dt a d ct mt p l" dt])

lemma grows_fill: "grows S dt (fill_entry dt a d ct mt p l)"
  by (simp add: grows_def fill_entry_fields)

lemma DirTreeAdd_ok:
  "stricmp_ok ext \<Longrightarrow> tree_inv ext dt \<Longrightarrow> add_ok ext (insert nm (prefixes nm)) dt (DirTreeAdd ext dt nm d)"
  using add_ok_both(1) by blast

lemma addAncestors_ok:
  "stricmp_ok ext \<Longrightarrow> tree_inv ext dt \<Longrightarrow> add_ok ext (prefixes nm) dt (addAncestors ext dt nm)"
  using add_ok_both(2) by blast

lemma DirTreeAdd_member:
  assumes ok: "stricmp_ok ext" and inv: "tree_inv ext dt"
    and a: "DirTreeAdd ext dt nm d = (Inr e, dt')" and ne: "nm \<noteq> []"
  shows "e \<in> set (hash dt' (hashPathName ext dt nm))"
    and "same_name ext dt (name (ents dt' e)) nm"
proof -
  have IH: "\<And>nf dt1. DirTreeFind ext dt nm = (Inl nf, dt1) \<Longrightarrow>
               add_ok ext (prefixes nm) dt1 (addAncestors ext dt1 nm)"
    using addAncestors_ok[OF ok] inv by (auto dest: find_fail_same)
  from DirTreeAdd_step(2)[OF ok inv IH, where d=d and e=e] a ne
  show "e \<in> set (hash dt' (hashPathName ext dt nm))"
    and "same_name ext dt (name (ents dt' e)) nm" by simp_all
qed

lemma apply_ops_ok:
  "stricmp_ok ext \<Longrightarrow> tree_inv ext dt \<Longrightarrow>
     tree_inv ext (apply_ops ext dt ops) \<and> grows UNIV dt (apply_ops ext dt ops)"
proof (induction ops arbitrary: dt)
  case Nil
  then show ?case by (simp add: grows_refl)
next
  case (Cons op ops)
  have step: "\<And>dt1. tree_inv ext dt1 \<Longrightarrow> grows UNIV dt dt1 \<Longrightarrow>
      tree_inv ext (apply_ops ext dt1 ops) \<and> grows UNIV dt (apply_ops ext dt1 ops)"
  proof -
    fix dt1 assume i1: "tree_inv ext dt1" and g1: "grows UNIV dt dt1"
    from Cons.IH[OF Cons.prems(1) i1]
    have i2: "tree_inv ext (apply_ops ext dt1 ops)" and g2: "grows UNIV dt1 (apply_ops ext dt1 ops)"
      by simp_all
    from grows_trans[OF g1 i1 g2] i2
    show "tree_inv ext (apply_ops ext dt1 ops) \<and> grows UNIV dt (apply_ops ext dt1 ops)" by simp
  qed
  show ?case
  proof (cases op)
    case (OpAdd nm d)
    from DirTreeAdd_ok[OF Cons.prems, of nm d]
    have "tree_inv ext (snd (DirTreeAdd ext dt nm d))" "grows UNIV dt (snd (DirTreeAdd ext dt nm d))"
      by (auto simp: add_ok_def intro: grows_mono)
    from step[OF this] OpAdd show ?thesis by simp
  next
    case (OpFind p)
    have "tree_inv ext (snd (DirTreeFind ext dt p))" by (rule tree_inv_find[OF Cons.prems(2)])
    moreover have "grows UNIV dt (snd (DirTreeFind ext dt p))"
      by (rule grows_same_entries[OF find_same_entries])
    ultimately show ?thesis using step OpFind by simp
  next
    case (OpFill a d ct mt p l)
    from step[OF tree_inv_fill[OF Cons.prems(2)] grows_fill] OpFill show ?thesis by simp
  qed
qed

lemma find_matching:
  assumes ok: "stricmp_ok ext" and inv: "tree_inv ext dt"
    and e: "e \<in> set (hash dt (hashPathName ext dt q))"
    and m: "same_name ext dt (name (ents dt e)) q" and q: "q \<noteq> []"
  shows "fst (DirTreeFind ext dt q) = Inr e"
proof -
  let ?m = "\<lambda>r. name_cmp ext dt r q"
  have me: "?m e" using m by (simp add: name_cmp_same)
  have u: "\<forall>x\<in>set (hash dt (hashPathName ext dt q)). ?m x \<longrightarrow> x = e"
  proof (intro ballI impI)
    fix x assume x: "x \<in> set (hash dt (hashPathName ext dt q))" and mx: "?m x"
    from mx have "same_name ext dt (name (ents dt x)) q" by (simp add: name_cmp_same)
    moreover from m have "same_name ext dt q (name (ents dt e))" by (rule same_sym[OF ok])
    ultimately have "same_name ext dt (name (ents dt x)) (name (ents dt e))" by (rule same_trans[OF ok])
    with inv x e show "x = e" unfolding tree_inv_def by blast
  qed
  obtain ch' where "find_chain ?m [] (hash dt (hashPathName ext dt q)) = Some (e, ch')"
    using find_chain_unique[OF e me u, of "[]"] by blast
  then show ?thesis using q by (simp add: DirTreeFind_def Let_def)
qed

lemma stricmp_ok_ext0: "stricmp_ok ext0"
  by (auto simp: stricmp_ok_def ext0_def take_neq)

lemma all_hashed_init: "all_hashed (DirTreeInit cs ua)"
  by (simp add: all_hashed_def DirTreeInit_def)

lemma all_hashed_same_entries: "same_entries dt dt' \<Longrightarrow> all_hashed dt \<Longrightarrow> all_hashed dt'"
  by (simp add: all_hashed_def same_entries_def)

lemma all_hashed_find: "all_hashed dt \<Longrightarrow> all_hashed (snd (DirTreeFind ext dt p))"
  by (rule all_hashed_same_entries[OF find_same_entries])

lemma all_hashed_fill: "all_hashed dt \<Longrightarrow> all_hashed (fill_entry dt a d ct mt p l)"
  by (simp add: all_hashed_def fill_entry_fields)

lemma all_hashed_link:
  assumes "all_hashed dt"
  shows "all_hashed (link_entry dt (next_entry dt) hv nm d parent)"
proof -
  let ?dt' = "link_entry dt (next_entry dt) hv nm d parent"
  from assms have r: "root_entry dt < next_entry dt"
    and nr: "\<And>b. root_entry dt \<notin> set (hash dt b)"
    and h: "\<And>e. e < next_entry dt \<Longrightarrow> e \<noteq> root_entry dt \<Longrightarrow> \<exists>b. e \<in> set (hash dt b)"
    by (auto simp: all_hashed_def)
  have 1: "root_entry ?dt' < next_entry ?dt'" using r by (simp add: link_entry_fields)
  have 2: "\<forall>b. root_entry ?dt' \<notin> set (hash ?dt' b)" using r nr by (simp add: link_entry_fields)
  have 3: "\<forall>e<next_entry ?dt'. e \<noteq> root_entry ?dt' \<longrightarrow> (\<exists>b. e \<in> set (hash ?dt' b))"
  proof (intro allI impI)
    fix e assume e: "e < next_entry ?dt'" and ne: "e \<noteq> root_entry ?dt'"
    show "\<exists>b. e \<in> set (hash ?dt' b)"
    proof (cases "e = next_entry dt")
      case True
      then have "e \<in> set (hash ?dt' hv)" by (simp add: link_entry_fields)
      then show ?thesis ..
    next
      case False
      with e ne have "e < next_entry dt" "e \<noteq> root_entry dt" by (simp_all add: link_entry_fields)
      from h[OF this] obtain b where "e \<in> set (hash dt b)" ..
      then have "e \<in> set (hash ?dt' b)" by (cases "b = hv") (simp_all add: link_entry_fields)
      then show ?thesis ..
    qed
  qed
  from 1 2 3 show ?thesis unfolding all_hashed_def by blast
qed

lemma all_hashed_both:
  "all_hashed dt \<longrightarrow> all_hashed (snd (DirTreeAdd ext dt nm d))"
  "all_hashed dt \<longrightarrow> all_hashed (snd (addAncestors ext dt nm))"
proof (induction ext dt nm d and ext dt nm rule: DirTreeAdd_addAncestors.induct)
  case (1 ext dt nm d)
  show ?case
  proof
    assume ah: "all_hashed dt"
    obtain r0 dt1 where f: "DirTreeFind ext dt nm = (r0, dt1)" by (cases "DirTreeFind ext dt nm")
    have ah1: "all_hashed dt1" using all_hashed_find[OF ah, of ext nm] f by simp
    show "all_hashed (snd (DirTreeAdd ext dt nm d))"
    proof (cases r0)
      case (Inr r)
      with f ah1 show ?thesis by simp
    next
      case (Inl nf)
      obtain ra dt2 where aa: "addAncestors ext dt1 nm = (ra, dt2)" by (cases "addAncestors ext dt1 nm")
      from 1[OF f[symmetric] Inl] ah1 aa have ah2: "all_hashed dt2" by simp
      show ?thesis
      proof (cases ra)
        case (Inl e)
        with f \<open>r0 = Inl nf\<close> aa ah2 show ?thesis by simp
      next
        case (Inr parent)
        with f \<open>r0 = Inl nf\<close> aa all_hashed_link[OF ah2] show ?thesis by simp
      qed
    qed
  qed
next
  case (2 ext dt nm)
  show ?case
  proof
    assume ah: "all_hashed dt"
    show "all_hashed (snd (addAncestors ext dt nm))"
    proof (cases "strrchr nm CHR ''/''")
      case None
      with ah show ?thesis by simp
    next
      case (Some sep)
      obtain r0 dt1 where f: "DirTreeFind ext dt (take sep nm) = (r0, dt1)"
        by (cases "DirTreeFind ext dt (take sep nm)")
      have ah1: "all_hashed dt1" using all_hashed_find[OF ah, of ext "take sep nm"] f by simp
      show ?thesis
      proof (cases r0)
        case (Inr r)
        with Some f ah1 show ?thesis by simp
      next
        case (Inl nf)
        from 2[OF Some f[symmetric] Inl] ah1 Some f Inl show ?thesis by simp
      qed
    qed
  qed
qed

lemma apply_ops_all_hashed: "all_hashed dt \<Longrightarrow> all_hashed (apply_ops ext dt ops)"
proof (induction ops arbitrary: dt)
  case Nil
  then show ?case by simp
next
  case (Cons op ops)
  show ?case
  proof (cases op)
    case (OpAdd nm d)
    with Cons all_hashed_both(1)[of dt ext nm d] show ?thesis by simp
  next
    case (OpFind p)
    with Cons all_hashed_find[of dt ext p] show ?thesis by simp
  next
    case (OpFill a d ct mt p l)
    with Cons all_hashed_fill[of dt a d ct mt p l] show ?thesis by simp
  qed
qed

lemma DirTreeAdd_all_hashed:
  "all_hashed dt \<Longrightarrow> all_hashed (snd (DirTreeAdd ext dt nm d))"
  using all_hashed_both(1) by blast

text \<open>
  C5. Let \<open>t\<close> be a tree made by \<open>__PHYSFS_DirTreeInit\<close> and any sequence of adds, finds
  and entry fills, where the case-insensitive comparison is as \<open>stricmp_ok\<close> says. Every
  entry of \<open>t\<close> other than the root, whether an add returned it or made it as an ancestor,
  is returned by a find on the full path stored in it. If an add of a non-empty name into
  \<open>t\<close> returns the entry \<open>e\<close>, then \<open>e\<close> is such an entry of the new tree, every entry of
  the new tree is found under its path, and after any further operations a find on the
  added name, and a find on the full path stored in \<open>e\<close>, return \<open>e\<close>. A find on the
  empty path returns the root. A find, which may move the entry it hits to the head of its
  bucket, does not change what a later find returns.
\<close>

theorem DirTree_find_after_add:
  assumes ok: "stricmp_ok ext" and t: "t = apply_ops ext (DirTreeInit cs ua) ops"
  shows "(a < next_entry t \<and> a \<noteq> root_entry t \<longrightarrow>
            fst (DirTreeFind ext t (name (ents t a))) = Inr a)
       \<and> (DirTreeAdd ext t nm d = (Inr e, t') \<and> nm \<noteq> [] \<longrightarrow>
            e < next_entry t' \<and> e \<noteq> root_entry t'
          \<and> (\<forall>x<next_entry t'. x \<noteq> root_entry t' \<longrightarrow>
                fst (DirTreeFind ext t' (name (ents t' x))) = Inr x)
          \<and> fst (DirTreeFind ext (apply_ops ext t' ops2) nm) = Inr e
          \<and> fst (DirTreeFind ext (apply_ops ext t' ops2) (name (ents (apply_ops ext t' ops2) e))) = Inr e)
       \<and> fst (DirTreeFind ext t []) = Inr (root_entry t)
       \<and> fst (DirTreeFind ext (snd (DirTreeFind ext t p)) q) = fst (DirTreeFind ext t q)"
proof -
  have inv: "tree_inv ext t" unfolding t using apply_ops_ok[OF ok tree_inv_init] by blast
  have ah: "all_hashed t" unfolding t by (rule apply_ops_all_hashed[OF all_hashed_init])
  have every: "fst (DirTreeFind ext u (name (ents u x))) = Inr x"
    if "tree_inv ext u" "all_hashed u" "x < next_entry u" "x \<noteq> root_entry u" for u x
  proof -
    from that obtain b where "x \<in> set (hash u b)" unfolding all_hashed_def by blast
    from find_entry[OF ok that(1) this] show ?thesis .
  qed
  have p0: "a < next_entry t \<and> a \<noteq> root_entry t \<longrightarrow>
            fst (DirTreeFind ext t (name (ents t a))) = Inr a"
    using every[OF inv ah] by blast
  have p1: "e < next_entry t' \<and> e \<noteq> root_entry t'
          \<and> (\<forall>x<next_entry t'. x \<noteq> root_entry t' \<longrightarrow>
                fst (DirTreeFind ext t' (name (ents t' x))) = Inr x)
          \<and> fst (DirTreeFind ext (apply_ops ext t' ops2) nm) = Inr e
          \<and> fst (DirTreeFind ext (apply_ops ext t' ops2) (name (ents (apply_ops ext t' ops2) e))) = Inr e"
    if a: "DirTreeAdd ext t nm d = (Inr e, t')" and ne: "nm \<noteq> []"
  proof -
    let ?t2 = "apply_ops ext t' ops2"
    from DirTreeAdd_ok[OF ok inv, of nm d] a
    have inv': "tree_inv ext t'" and g: "grows (insert nm (prefixes nm)) t t'" and lt: "e < next_entry t'"
      by (simp_all add: add_ok_def)
    have ah': "all_hashed t'" using DirTreeAdd_all_hashed[OF ah, of ext nm d] a by simp
    from apply_ops_ok[OF ok inv'] have inv2: "tree_inv ext ?t2" and g2: "grows UNIV t' ?t2" by blast+
    have hp: "hashPathName ext ?t2 = hashPathName ext t" and sn: "same_name ext ?t2 = same_name ext t"
      using g g2 by (auto simp: grows_def intro!: hashPathName_cong same_name_cong)
    have nme: "name (ents ?t2 e) = name (ents t' e)" using g2 lt by (simp add: grows_def)
    from DirTreeAdd_member[OF ok inv a ne]
    have e: "e \<in> set (hash t' (hashPathName ext t nm))" and m: "same_name ext t (name (ents t' e)) nm"
      by simp_all
    from e ah' have nr: "e \<noteq> root_entry t'" unfolding all_hashed_def by blast
    from e g2 have e2: "e \<in> set (hash ?t2 (hashPathName ext ?t2 nm))"
      unfolding grows_def hp by blast
    have m2: "same_name ext ?t2 (name (ents ?t2 e)) nm" using m by (simp add: sn nme)
    have "fst (DirTreeFind ext ?t2 nm) = Inr e" by (rule find_matching[OF ok inv2 e2 m2 ne])
    moreover have "fst (DirTreeFind ext ?t2 (name (ents ?t2 e))) = Inr e"
      by (rule find_entry[OF ok inv2 e2])
    moreover have "\<forall>x<next_entry t'. x \<noteq> root_entry t' \<longrightarrow>
                fst (DirTreeFind ext t' (name (ents t' x))) = Inr x"
      using every[OF inv' ah'] by blast
    ultimately show ?thesis using lt nr by simp
  qed
  have p2: "fst (DirTreeFind ext t []) = Inr (root_entry t)" by (simp add: DirTreeFind_def)
  have p3: "fst (DirTreeFind ext (snd (DirTreeFind ext t p)) q) = fst (DirTreeFind ext t q)"
    by (rule find_after_find[OF ok inv])
  from p0 p1 p2 p3 show ?thesis by blast
qed

theorem DirTree_find_after_add_witness:
  "fst (DirTreeAdd ext0 (DirTreeInit True False) ''a/an'' False) = Inr 2
   \<and> hash two_level_tree 4 = [2, 1]
   \<and> fst (DirTreeFind ext0 two_level_tree ''a'') = Inr 1
   \<and> hash (snd (DirTreeFind ext0 two_level_tree ''a'')) 4 = [1, 2]
   \<and> fst (DirTreeFind ext0 (snd (DirTreeFind ext0 two_level_tree ''a'')) ''a/an'') = Inr 2
   \<and> fst (DirTreeFind ext0 two_level_tree []) = Inr 0"
proof -
  have a: "fst (DirTreeAdd ext0 (DirTreeInit True False) ''a/an'' False) = Inr 2"
    by (simp add: DirTreeFind_def DirTreeInit_def hashPathName_def strrchr_def
          PHYSFS_hashString_def char_int_def name_cmp_def link_entry_def zero_entry_def Let_def)
  have t': "two_level_tree = snd (DirTreeAdd ext0 (DirTreeInit True False) ''a/an'' False)"
    by (simp add: two_level_tree_def)
  have b: "DirTreeAdd ext0 (DirTreeInit True False) ''a/an'' False = (Inr 2, two_level_tree)"
    using a t' by (simp add: prod_eq_iff)
  have n: "next_entry two_level_tree = 3" "root_entry two_level_tree = 0"
    "name (ents two_level_tree 1) = ''a''" "name (ents two_level_tree 2) = ''a/an''"
    by (simp_all add: two_level_tree_def DirTreeFind_def DirTreeInit_def hashPathName_def
          strrchr_def PHYSFS_hashString_def char_int_def name_cmp_def link_entry_def
          zero_entry_def Let_def)
  have h: "hash two_level_tree 4 = [2, 1]"
    "hash (snd (DirTreeFind ext0 two_level_tree ''a'')) 4 = [1, 2]"
    by (simp_all add: two_level_tree_def DirTreeFind_def DirTreeInit_def hashPathName_def
          strrchr_def PHYSFS_hashString_def char_int_def name_cmp_def link_entry_def
          zero_entry_def Let_def)
  have i: "DirTreeInit True False = apply_ops ext0 (DirTreeInit True False) []" by simp
  have ne: "''a/an'' \<noteq> []" by simp
  from DirTree_find_after_add[OF stricmp_ok_ext0 i,
         where nm="''a/an''" and d=False and e=2 and t'=two_level_tree]
  have imp: "DirTreeAdd ext0 (DirTreeInit True False) ''a/an'' False = (Inr 2, two_level_tree)
               \<and> ''a/an'' \<noteq> [] \<longrightarrow>
             (\<forall>x<next_entry two_level_tree. x \<noteq> root_entry two_level_tree \<longrightarrow>
                fst (DirTreeFind ext0 two_level_tree (name (ents two_level_tree x))) = Inr x)"
    by blast
  with b ne have all: "\<forall>x<next_entry two_level_tree. x \<noteq> root_entry two_level_tree \<longrightarrow>
                fst (DirTreeFind ext0 two_level_tree (name (ents two_level_tree x))) = Inr x"
    by blast
  have "(1::nat) < next_entry two_level_tree" "(1::nat) \<noteq> root_entry two_level_tree"
    "(2::nat) < next_entry two_level_tree" "(2::nat) \<noteq> root_entry two_level_tree"
    by (simp_all add: n)
  with all have "fst (DirTreeFind ext0 two_level_tree (name (ents two_level_tree 1))) = Inr 1"
    and "fst (DirTreeFind ext0 two_level_tree (name (ents two_level_tree 2))) = Inr 2"
    by blast+
  then have f1: "fst (DirTreeFind ext0 two_level_tree ''a'') = Inr 1"
    and f2: "fst (DirTreeFind ext0 two_level_tree ''a/an'') = Inr 2"
    by (simp_all only: n)
  from DirTree_find_after_add[OF stricmp_ok_ext0 two_level_tree_def,
         where p="''a''" and q="''a/an''"]
  have "fst (DirTreeFind ext0 (snd (DirTreeFind ext0 two_level_tree ''a'')) ''a/an'')
          = fst (DirTreeFind ext0 two_level_tree ''a/an'')"
    and "fst (DirTreeFind ext0 two_level_tree []) = Inr (root_entry two_level_tree)"
    by blast+
  with f2 n have f3: "fst (DirTreeFind ext0 (snd (DirTreeFind ext0 two_level_tree ''a'')) ''a/an'') = Inr 2"
    and f4: "fst (DirTreeFind ext0 two_level_tree []) = Inr 0"
    by simp_all
  from a h f1 f3 f4 show ?thesis by simp
qed

subsection \<open>Opening a QPAK archive\<close>














end
